theory Spec2Isabelle
  imports Complex_Main "HOL-Library.Char_ord" "HOL-Library.List_Lexorder"
begin

section \<open>Bond liquidity heatmap: metrics engine and grid aggregation\<close>

text \<open>
  The two scripts of the repository that decide anything are
  \<^verbatim>\<open>src/compute_metrics.py\<close> (the per-ISIN depth score) and the function
  \<^verbatim>\<open>render\<close> of \<^verbatim>\<open>main.py\<close> (tenor buckets, latest record per ISIN, the grid and
  its colours). Both are pandas programs over columns of 64-bit floats.

  Numbers are modelled by exact rationals, the missing value (NaN, NaT, NULL) by
  \<open>None\<close>. Rounding and overflow of the floats are not modelled. The one place where
  the code can divide by zero on numeric input is the volume-weighted price, so its
  quotient has the float's three special results written out. Timestamps are whole
  seconds since the epoch, as the generator writes them.
\<close>

subsection \<open>Raw trade events\<close>

text \<open>
  A row of \<^verbatim>\<open>raw_trade_events\<close>, restricted to the columns that
  \<^verbatim>\<open>compute_depth_score\<close> reads.
\<close>

record trade =
  t_isin :: string
  t_trade_ts :: int
  t_qty_cr :: rat
  t_price :: rat

subsection \<open>Pandas column operations\<close>

text \<open>The values of a column that are present (pandas skips NaN in every reduction).\<close>

fun present :: "'a option list \<Rightarrow> 'a list" where
  "present [] = []"
| "present (None # xs) = present xs"
| "present (Some x # xs) = x # present xs"

text \<open>\<^verbatim>\<open>Series.diff()\<close>: the first entry is NaN, entry \<open>i\<close> is \<open>x\<^sub>i - x\<^sub>i\<^sub>-\<^sub>1\<close>.\<close>

fun diff :: "rat list \<Rightarrow> rat option list" where
  "diff [] = []"
| "diff (x # xs) = None # map2 (\<lambda>b a. Some (b - a)) xs (x # xs)"

text \<open>The trailing window of at most \<open>w\<close> entries that ends at position \<open>i\<close>.\<close>

definition window :: "nat \<Rightarrow> 'a list \<Rightarrow> nat \<Rightarrow> 'a list" where
  "window w xs i = drop (Suc i - w) (take (Suc i) xs)"

text \<open>
  \<^verbatim>\<open>Series.rolling(w, min_periods=mp).sum()\<close> and \<^verbatim>\<open>.mean()\<close>: the value at
  a position is NaN unless the window holds at least \<open>mp\<close> present entries.
\<close>

definition rolling_sum :: "nat \<Rightarrow> nat \<Rightarrow> rat option list \<Rightarrow> rat option list" where
  "rolling_sum w mp xs =
     map (\<lambda>i. let obs = present (window w xs i)
               in if mp \<le> length obs then Some (sum_list obs) else None)
         [0..<length xs]"

definition rolling_mean :: "nat \<Rightarrow> nat \<Rightarrow> rat option list \<Rightarrow> rat option list" where
  "rolling_mean w mp xs =
     map (\<lambda>i. let obs = present (window w xs i)
               in if mp \<le> length obs then Some (sum_list obs / of_nat (length obs)) else None)
         [0..<length xs]"

text \<open>\<^verbatim>\<open>Series.max()\<close>: NaN on a column with no present entry.\<close>

definition col_max :: "rat option list \<Rightarrow> rat option" where
  "col_max xs = (case present xs of [] \<Rightarrow> None | y # ys \<Rightarrow> Some (fold max ys y))"

text \<open>Entrywise arithmetic of two columns: NaN wherever an operand is NaN.\<close>

definition lift2 :: "(rat \<Rightarrow> rat \<Rightarrow> rat) \<Rightarrow> rat option \<Rightarrow> rat option \<Rightarrow> rat option" where
  "lift2 f a b = (case (a, b) of (Some x, Some y) \<Rightarrow> Some (f x y) | _ \<Rightarrow> None)"

text \<open>
  A float that is not NaN. The quotient of two floats: \<open>0/0\<close> is NaN, \<open>x/0\<close> an
  infinity.
\<close>

datatype fnum = Fin rat | PInf | NInf

definition fdiv :: "rat option \<Rightarrow> rat option \<Rightarrow> fnum option" where
  "fdiv a b =
     (case (a, b) of
        (Some x, Some y) \<Rightarrow>
          (if y = 0 then (if x = 0 then None else if 0 < x then Some PInf else Some NInf)
           else Some (Fin (x / y)))
      | _ \<Rightarrow> None)"

subsection \<open>compute\_depth\_score\<close>

text \<open>A row of the frame that \<^verbatim>\<open>compute_depth_score\<close> returns.\<close>

record metric =
  isin :: string
  trade_ts :: int
  depth_score :: "rat option"
  spread :: "rat option"
  time_since_last :: "rat option"
  vwap :: "fnum option"
  volume_15min :: "rat option"
  price :: rat
  qty_cr :: rat

text \<open>
  \<^verbatim>\<open>group.sort_values('trade_ts')\<close>. The group arrives ordered by
  \<^verbatim>\<open>trade_ts\<close> from the SQL query; the sort is modelled as a stable one.
\<close>

definition sort_values :: "trade list \<Rightarrow> trade list" where
  "sort_values g = sort_key t_trade_ts g"

definition time_since_last_col :: "trade list \<Rightarrow> rat option list" where
  "time_since_last_col s = map (map_option (\<lambda>d. d / 60)) (diff (map (\<lambda>t. of_int (t_trade_ts t)) s))"

definition spread_bps_col :: "trade list \<Rightarrow> rat option list" where
  "spread_bps_col s = map (map_option (\<lambda>d. \<bar>d\<bar> * 10000)) (diff (map t_price s))"

definition min_spread :: rat where "min_spread = 1 / 2"
definition min_time :: rat where "min_time = 1 / 2"

text \<open>The depth score before normalisation (line 49).\<close>

definition raw_depth_col :: "trade list \<Rightarrow> rat option list" where
  "raw_depth_col s =
     (let rolling_volume = rolling_sum 10 5 (map (\<lambda>t. Some (t_qty_cr t)) s);
          rolling_spread = rolling_mean 10 5 (spread_bps_col s);
          rolling_time = rolling_mean 10 5 (time_since_last_col s)
      in map2 (\<lambda>q sp. lift2 (\<lambda>a b. a / (b + min_spread)) q sp)
           (map2 (\<lambda>v t. lift2 (\<lambda>a b. a / (b + min_time)) v t) rolling_volume rolling_time)
           rolling_spread)"

text \<open>Lines 58-59: the column is rescaled only if its maximum is positive.\<close>

definition normalize_depth :: "rat option list \<Rightarrow> rat option list" where
  "normalize_depth ds =
     (case col_max ds of
        Some mx \<Rightarrow> (if 0 < mx then map (map_option (\<lambda>d. d / mx * 100)) ds else ds)
      | None \<Rightarrow> ds)"

definition vwap_col :: "trade list \<Rightarrow> fnum option list" where
  "vwap_col s =
     map2 fdiv (rolling_sum 10 1 (map (\<lambda>t. Some (t_price t * t_qty_cr t)) s))
               (rolling_sum 10 1 (map (\<lambda>t. Some (t_qty_cr t)) s))"

definition volume_15min_col :: "trade list \<Rightarrow> rat option list" where
  "volume_15min_col s = rolling_sum 15 1 (map (\<lambda>t. Some (t_qty_cr t)) s)"

text \<open>
  The frame of lines 66-76, row by row of the sorted group. The column
  \<^verbatim>\<open>volume_weighted_price\<close> of line 36 is not part of the frame and is left out. The
  ISIN of every row is that of the first row of the sorted group.
\<close>

definition compute_depth_score :: "trade list \<Rightarrow> metric list" where
  "compute_depth_score g =
     (let s = sort_values g;
          ds = normalize_depth (raw_depth_col s)
      in map (\<lambda>i. \<lparr> isin = t_isin (hd s),
                     trade_ts = t_trade_ts (s ! i),
                     depth_score = ds ! i,
                     spread = spread_bps_col s ! i,
                     time_since_last = time_since_last_col s ! i,
                     vwap = vwap_col s ! i,
                     volume_15min = volume_15min_col s ! i,
                     price = t_price (s ! i),
                     qty_cr = t_qty_cr (s ! i) \<rparr>)
           [0..<length s])"

subsection \<open>The per-ISIN loop of compute\_metrics.py\<close>

text \<open>\<^verbatim>\<open>Series.unique()\<close>: the distinct values in order of first appearance.\<close>

fun unique :: "'a list \<Rightarrow> 'a list" where
  "unique [] = []"
| "unique (x # xs) = x # unique (filter (\<lambda>y. y \<noteq> x) xs)"

datatype exn = Exception string

text \<open>What the loop writes to the logger: the warning of line 95, the error of line 93.\<close>

datatype log_entry = Warning string nat | Error string exn

record loop_state =
  all_metrics :: "metric list list"
  valid_isins :: nat
  log :: "log_entry list"

text \<open>
  One iteration of lines 85-95. The per-ISIN computation is a parameter that yields a
  frame or raises; the script passes \<^verbatim>\<open>compute_depth_score\<close>.
\<close>

definition loop_body :: "(trade list \<Rightarrow> exn + metric list) \<Rightarrow> trade list \<Rightarrow> loop_state \<Rightarrow> string \<Rightarrow> loop_state" where
  "loop_body compute trades st i =
     (let isin_trades = filter (\<lambda>t. t_isin t = i) trades
      in if 5 < length isin_trades then
           (case compute isin_trades of
              Inr metrics \<Rightarrow> st\<lparr>all_metrics := all_metrics st @ [metrics],
                                valid_isins := valid_isins st + 1\<rparr>
            | Inl e \<Rightarrow> st\<lparr>log := log st @ [Error i e]\<rparr>)
         else st\<lparr>log := log st @ [Warning i (length isin_trades)]\<rparr>)"

definition isin_loop :: "(trade list \<Rightarrow> exn + metric list) \<Rightarrow> trade list \<Rightarrow> loop_state" where
  "isin_loop compute trades =
     foldl (loop_body compute trades)
       \<lparr>all_metrics = [], valid_isins = 0, log = []\<rparr>
       (unique (map t_isin trades))"

text \<open>\<^verbatim>\<open>DataFrame.dropna()\<close>: a row with a NaN in any column is removed.\<close>

definition dropna :: "metric list \<Rightarrow> metric list" where
  "dropna rows =
     filter (\<lambda>r. depth_score r \<noteq> None \<and> spread r \<noteq> None \<and> time_since_last r \<noteq> None
                 \<and> vwap r \<noteq> None \<and> volume_15min r \<noteq> None) rows"

text \<open>
  Lines 99-111: the table \<^verbatim>\<open>trade_metrics\<close> that the run writes, \<open>None\<close>
  if no ISIN was processed and the table is left as it was.
\<close>

definition metrics_table :: "(trade list \<Rightarrow> exn + metric list) \<Rightarrow> trade list \<Rightarrow> metric list option" where
  "metrics_table compute trades =
     (let st = isin_loop compute trades
      in if all_metrics st = [] then None else Some (dropna (concat (all_metrics st))))"

definition metrics_engine :: "trade list \<Rightarrow> metric list option" where
  "metrics_engine trades = metrics_table (\<lambda>g. Inr (compute_depth_score g)) trades"

text \<open>
  The frame that the loop appends for one ISIN, if it appends one: the ISIN has more
  than five trades and the computation did not raise.
\<close>

definition processed :: "(trade list \<Rightarrow> exn + metric list) \<Rightarrow> trade list \<Rightarrow> string \<Rightarrow> metric list option" where
  "processed compute trades i =
     (let g = filter (\<lambda>t. t_isin t = i) trades
      in if 5 < length g then (case compute g of Inr m \<Rightarrow> Some m | Inl e \<Rightarrow> None) else None)"

subsection \<open>Example data\<close>

text \<open>
  \<open>n\<close> trades of one ISIN, one minute apart from \<open>t0\<close> on, at a constant price and
  quantity.
\<close>

definition minute_trades :: "string \<Rightarrow> int \<Rightarrow> rat \<Rightarrow> rat \<Rightarrow> nat \<Rightarrow> trade list" where
  "minute_trades i t0 p q n =
     map (\<lambda>k. \<lparr>t_isin = i, t_trade_ts = t0 + 60 * int k, t_qty_cr = q, t_price = p\<rparr>) [0..<n]"

text \<open>
  A per-ISIN computation that raises on the ISIN \<open>bad\<close>, as pandas does on a column
  that is not numeric, and is the script's otherwise.
\<close>

definition failing_compute :: "string \<Rightarrow> trade list \<Rightarrow> exn + metric list" where
  "failing_compute bad g =
     (if t_isin (hd g) = bad then Inl (Exception ''TypeError'') else Inr (compute_depth_score g))"

text \<open>Two ISINs with six trades each.\<close>

definition failing_pair_trades :: "trade list" where
  "failing_pair_trades = minute_trades ''INA'' 0 100 1000000 6 @ minute_trades ''INB'' 0 100 1000000 6"

definition two_isin_trades :: "trade list" where
  "two_isin_trades = minute_trades ''INA'' 0 100 1000000 3 @ minute_trades ''INB'' 0 100 1000000 6"

section \<open>The grid of main.py\<close>

subsection \<open>The metrics frame\<close>

text \<open>
  A row of the frame that \<^verbatim>\<open>load_metrics\<close> returns: a row of
  \<^verbatim>\<open>trade_metrics\<close> with the rating and the maturity date of its ISIN, NaN where the
  left merge found none. \<^verbatim>\<open>render\<close> adds the columns \<^verbatim>\<open>tenor_years\<close> and
  \<^verbatim>\<open>tenor_bucket\<close> to the frame; a column that is not there yet is \<open>None\<close> in every
  row. The maturity date is the second its day begins.
\<close>

record frame_row = metric +
  rating :: "string option"
  maturity_date :: "int option"
  tenor_years :: "rat option"
  tenor_bucket :: "string option"

definition bins :: "rat list" where
  "bins = [0, 1, 3, 5, 10, 100]"

definition labels :: "string list" where
  "labels = [''0-1y'', ''1-3y'', ''3-5y'', ''5-10y'', ''10y+'']"

text \<open>
  \<^verbatim>\<open>pd.cut(x, bins, labels, right=False)\<close>: the label of the interval, closed on the
  left and open on the right, that holds \<open>x\<close>; NaN if none does.
\<close>

fun cut :: "rat list \<Rightarrow> string list \<Rightarrow> rat \<Rightarrow> string option" where
  "cut (lo # hi # bs) (l # ls) x = (if lo \<le> x \<and> x < hi then Some l else cut (hi # bs) ls x)"
| "cut _ _ _ = None"

text \<open>
  Lines 150-154. \<^verbatim>\<open>.dt.days\<close> is the number of whole days of the difference,
  rounded towards minus infinity.
\<close>

definition assign_tenor :: "frame_row \<Rightarrow> frame_row" where
  "assign_tenor r =
     (let ty = map_option (\<lambda>m. of_int ((m - trade_ts r) div 86400) / 365) (maturity_date r)
      in r\<lparr>tenor_years := ty,
            tenor_bucket := (case ty of None \<Rightarrow> None | Some y \<Rightarrow> cut bins labels y)\<rparr>)"

subsection \<open>The latest record of each ISIN\<close>

text \<open>\<^verbatim>\<open>idxmax\<close> on the \<^verbatim>\<open>trade_ts\<close> of a group: the first row that has the maximum.\<close>

definition idxmax_row :: "frame_row list \<Rightarrow> frame_row option" where
  "idxmax_row g =
     (case g of
        [] \<Rightarrow> None
      | r # rs \<Rightarrow> List.find (\<lambda>x. trade_ts x = fold max (map trade_ts rs) (trade_ts r)) g)"

text \<open>Line 174. \<^verbatim>\<open>groupby('isin')\<close> yields its groups in the order of the sorted keys.\<close>

definition latest_metrics :: "frame_row list \<Rightarrow> frame_row list" where
  "latest_metrics metrics =
     List.map_filter (\<lambda>i. idxmax_row (filter (\<lambda>r. isin r = i) metrics))
       (sort (remdups (map isin metrics)))"

subsection \<open>Cells, thresholds and colours\<close>

record grid_cell =
  cell_rating :: string
  cell_tenor_bucket :: string
  depth :: "rat option"
  cell_spread :: "rat option"
  volume :: rat
  n_trades :: nat
  cell_vwap :: "fnum option"
  cell_colour :: "string option"

text \<open>\<^verbatim>\<open>Series.median()\<close> of the present values: NaN if there is none.\<close>

definition median :: "rat list \<Rightarrow> rat option" where
  "median xs =
     (if xs = [] then None
      else let s = sort xs; n = length s
           in if odd n then Some (s ! (n div 2))
              else Some ((s ! (n div 2 - 1) + s ! (n div 2)) / 2))"

text \<open>
  \<^verbatim>\<open>Series.quantile(q)\<close> of the present values, by linear interpolation between the
  two order statistics around position \<open>(n - 1) q\<close>.
\<close>

definition quantile :: "rat list \<Rightarrow> rat \<Rightarrow> rat option" where
  "quantile xs q =
     (if xs = [] then None
      else let s = sort xs;
               pos = of_nat (length s - 1) * q;
               lo = nat \<lfloor>pos\<rfloor>;
               hi = min (lo + 1) (length s - 1)
           in Some (s ! lo + (s ! hi - s ! lo) * (pos - of_nat lo)))"

text \<open>
  The aggregation of lines 183-189 for one pair of keys. A row whose rating or tenor
  bucket is NaN belongs to no group. \<^verbatim>\<open>last\<close> is the last present value.
\<close>

definition agg_cell :: "frame_row list \<Rightarrow> string \<Rightarrow> string \<Rightarrow> grid_cell" where
  "agg_cell latest rt tb =
     (let g = filter (\<lambda>r. rating r = Some rt \<and> tenor_bucket r = Some tb) latest
      in \<lparr> cell_rating = rt,
            cell_tenor_bucket = tb,
            depth = median (present (map depth_score g)),
            cell_spread = median (present (map spread g)),
            volume = sum_list (map qty_cr g),
            n_trades = length g,
            cell_vwap = (case present (map vwap g) of [] \<Rightarrow> None | v # vs \<Rightarrow> Some (last (v # vs))),
            cell_colour = None \<rparr>)"

text \<open>
  With \<^verbatim>\<open>observed=False\<close> the grid has a row for every rating that occurs and every
  label, in the order of the sorted ratings and of the labels.
\<close>

definition make_grid :: "frame_row list \<Rightarrow> grid_cell list" where
  "make_grid latest =
     concat (map (\<lambda>rt. map (\<lambda>tb. agg_cell latest rt tb) labels)
                 (sort (remdups (present (map rating latest)))))"

text \<open>A comparison of floats is false as soon as one side is NaN.\<close>

definition nan_less :: "rat option \<Rightarrow> rat option \<Rightarrow> bool" where
  "nan_less a b = (case (a, b) of (Some x, Some y) \<Rightarrow> x < y | _ \<Rightarrow> False)"

definition nan_le :: "rat option \<Rightarrow> rat option \<Rightarrow> bool" where
  "nan_le a b = (case (a, b) of (Some x, Some y) \<Rightarrow> x \<le> y | _ \<Rightarrow> False)"

definition red :: string where "red = ''#e74c3c''"
definition green :: string where "green = ''#27ae60''"
definition amber :: string where "amber = ''#f39c12''"

text \<open>Lines 203-209, with the three thresholds that the closure reads.\<close>

definition colour :: "rat option \<Rightarrow> rat option \<Rightarrow> rat option \<Rightarrow> grid_cell \<Rightarrow> string" where
  "colour p25 p75 median_spread row =
     (if depth row = None \<or> nan_less (depth row) p25
         \<or> nan_less (map_option (\<lambda>m. m * (3 / 2)) median_spread) (cell_spread row)
      then red
      else if nan_le p75 (depth row) \<and> nan_le (cell_spread row) median_spread
      then green
      else amber)"

record thresholds =
  p25 :: "rat option"
  p75 :: "rat option"
  median_spread :: "rat option"

text \<open>Lines 197-199.\<close>

definition grid_thresholds :: "grid_cell list \<Rightarrow> thresholds" where
  "grid_thresholds grid =
     \<lparr> p25 = quantile (present (map depth grid)) (1 / 4),
       p75 = quantile (present (map depth grid)) (3 / 4),
       median_spread = median (present (map cell_spread grid)) \<rparr>"

text \<open>Line 211.\<close>

definition classify :: "grid_cell list \<Rightarrow> grid_cell list" where
  "classify grid =
     (let th = grid_thresholds grid
      in map (\<lambda>row. row\<lparr>cell_colour := Some (colour (p25 th) (p75 th) (median_spread th) row)\<rparr>) grid)"

text \<open>
  \<^verbatim>\<open>render\<close>, up to the coloured grid: the frame with its two new columns, and the
  grid with its thresholds unless the frame is empty.
\<close>

definition render :: "frame_row list \<Rightarrow> frame_row list \<times> (grid_cell list \<times> thresholds) option" where
  "render metrics0 =
     (if metrics0 = [] then (metrics0, None)
      else let metrics = map assign_tenor metrics0;
               latest = latest_metrics metrics
           in if latest = [] then (metrics, None)
              else let grid = make_grid latest
                   in (metrics, Some (classify grid, grid_thresholds grid)))"

text \<open>A cell is populated if at least one instrument contributes to it.\<close>

definition populated :: "grid_cell \<Rightarrow> bool" where
  "populated c = (0 < n_trades c)"

text \<open>A frame row for the examples: ISIN, timestamp, depth score, spread, vwap, rating, maturity.\<close>

definition mk_row :: "string \<Rightarrow> int \<Rightarrow> rat \<Rightarrow> rat \<Rightarrow> rat \<Rightarrow> string option \<Rightarrow> int option \<Rightarrow> frame_row" where
  "mk_row i ts d sp v rt mat =
     \<lparr> isin = i, trade_ts = ts, depth_score = Some d, spread = Some sp, time_since_last = Some 1,
       vwap = Some (Fin v), volume_15min = Some 1000000, price = v, qty_cr = 1000000,
       rating = rt, maturity_date = mat, tenor_years = None, tenor_bucket = None \<rparr>"

text \<open>
  Two ISINs, given out of order; the second has two rows at its latest timestamp.
\<close>

definition tied_rows :: "frame_row list" where
  "tied_rows = [mk_row ''INB'' 100 60 7 2 (Some ''AAA'') None,
                mk_row ''INA'' 100 10 5 1 (Some ''AAA'') None,
                mk_row ''INA'' 200 20 5 1 (Some ''AAA'') None,
                mk_row ''INA'' 200 30 5 1 (Some ''AAA'') None]"



text \<open>A row traded at second 0 whose bond matures \<open>d\<close> days later.\<close>

definition day_row :: "int \<Rightarrow> frame_row" where
  "day_row d = mk_row ''INA'' 0 40 5 1 (Some ''AAA'') (Some (d * 86400))"


text \<open>
  Three ISINs with the same maturity. The first two share a rating; the first has
  the later record.
\<close>

definition three_rows :: "frame_row list" where
  "three_rows = [mk_row ''INA'' 200 40 5 1 (Some ''AAA'') (Some (400 * 86400)),
                 mk_row ''INB'' 100 60 7 2 (Some ''AAA'') (Some (400 * 86400)),
                 mk_row ''INC'' 100 10 7 3 (Some ''AA'') (Some (400 * 86400))]"

text \<open>
  The vwap of the record that is last by trade timestamp, as the specification words
  the vwap of a cell, for comparison with \<open>cell_vwap\<close>.
\<close>

definition spec_most_recent_vwap :: "frame_row list \<Rightarrow> fnum option" where
  "spec_most_recent_vwap rows =
     (case sort_key trade_ts rows of [] \<Rightarrow> None | r # rs \<Rightarrow> vwap (last (r # rs)))"

text \<open>
  Fifteen trades of one ISIN, one minute apart at the price 100: all of quantity 0,
  and all of quantity 1,000,000.
\<close>

definition zero_volume_trades :: "trade list" where
  "zero_volume_trades = minute_trades ''INA'' 0 100 0 15"

definition liquid_trades :: "trade list" where
  "liquid_trades = minute_trades ''INA'' 0 100 1000000 15"

section \<open>Properties of the metrics engine\<close>

lemmas engine_defs = metrics_engine_def metrics_table_def isin_loop_def loop_body_def
  compute_depth_score_def sort_values_def raw_depth_col_def normalize_depth_def vwap_col_def
  volume_15min_col_def time_since_last_col_def spread_bps_col_def rolling_sum_def rolling_mean_def
  window_def col_max_def lift2_def fdiv_def dropna_def min_spread_def min_time_def

lemma upt_6: "[0..<6] = [0, 1, 2, 3, 4, 5]"
  by (simp add: upt_rec)

subsection \<open>The loop as a filter over the distinct ISINs\<close>

lemma map_filter_Cons_single:
  "List.map_filter f (x # xs) = List.map_filter f [x] @ List.map_filter f xs"
  by (simp split: option.splits)

lemma all_metrics_loop_body:
  "all_metrics (loop_body c tr st j) = all_metrics st @ List.map_filter (processed c tr) [j]"
  by (simp add: loop_body_def processed_def Let_def split: sum.splits)

lemma all_metrics_foldl:
  "all_metrics (foldl (loop_body c tr) st js) = all_metrics st @ List.map_filter (processed c tr) js"
proof (induction js arbitrary: st)
  case Nil
  then show ?case by simp
next
  case (Cons j js)
  show ?case
    using Cons.IH [of "loop_body c tr st j"] all_metrics_loop_body [of c tr st j]
      map_filter_Cons_single [of "processed c tr" j js]
    by simp
qed

lemma all_metrics_isin_loop:
  "all_metrics (isin_loop c tr) = List.map_filter (processed c tr) (unique (map t_isin tr))"
  by (simp add: isin_loop_def all_metrics_foldl)

lemma valid_isins_foldl:
  "valid_isins (foldl (loop_body c tr) st js) = valid_isins st + length (List.map_filter (processed c tr) js)"
proof (induction js arbitrary: st)
  case Nil
  then show ?case by simp
next
  case (Cons j js)
  have step: "valid_isins (loop_body c tr st j) = valid_isins st + length (List.map_filter (processed c tr) [j])"
    by (simp add: loop_body_def processed_def Let_def split: sum.splits)
  have "List.map_filter (processed c tr) (j # js) = List.map_filter (processed c tr) [j] @ List.map_filter (processed c tr) js"
    by (simp split: option.splits)
  then show ?case
    using Cons.IH [of "loop_body c tr st j"] step by simp
qed

lemma set_unique [simp]: "set (unique xs) = set xs"
  by (induction xs rule: unique.induct) auto

lemma distinct_unique [simp]: "distinct (unique xs)"
  by (induction xs rule: unique.induct) auto

lemma unique_filter: "unique (filter P xs) = filter P (unique xs)"
proof (induction xs rule: unique.induct)
  case 1
  then show ?case by simp
next
  case (2 x xs)
  have comm: "filter (\<lambda>y. y \<noteq> x) (filter P xs) = filter P (filter (\<lambda>y. y \<noteq> x) xs)"
    by (simp add: conj_commute)
  show ?case
  proof (cases "P x")
    case True
    with 2 comm show ?thesis by simp
  next
    case False
    then have "filter P (filter (\<lambda>y. y \<noteq> x) xs) = filter P xs"
      by (auto intro: filter_cong)
    with 2 False show ?thesis by simp
  qed
qed

lemma log_foldl_mono:
  "set (log st) \<subseteq> set (log (foldl (loop_body c tr) st js))"
proof (induction js arbitrary: st)
  case Nil
  then show ?case by simp
next
  case (Cons j js)
  have "set (log st) \<subseteq> set (log (loop_body c tr st j))"
    by (auto simp: loop_body_def Let_def split: sum.splits)
  with Cons.IH [of "loop_body c tr st j"] show ?case by auto
qed

lemma log_foldl_warning:
  assumes "j \<in> set js" and "\<not> 5 < length (filter (\<lambda>t. t_isin t = j) tr)"
  shows "Warning j (length (filter (\<lambda>t. t_isin t = j) tr)) \<in> set (log (foldl (loop_body c tr) st js))"
  using assms(1)
proof (induction js arbitrary: st)
  case Nil
  then show ?case by simp
next
  case (Cons k js)
  show ?case
  proof (cases "j = k")
    case True
    have "Warning j (length (filter (\<lambda>t. t_isin t = j) tr)) \<in> set (log (loop_body c tr st k))"
      using True assms(2) by (simp add: loop_body_def Let_def)
    with log_foldl_mono [of "loop_body c tr st k" c tr js] show ?thesis
      by auto
  next
    case False
    with Cons.prems have "j \<in> set js" by simp
    from Cons.IH [OF this, of "loop_body c tr st k"] show ?thesis by simp
  qed
qed

lemma log_foldl_error:
  assumes "j \<in> set js" and "5 < length (filter (\<lambda>t. t_isin t = j) tr)"
    and "c (filter (\<lambda>t. t_isin t = j) tr) = Inl e"
  shows "Error j e \<in> set (log (foldl (loop_body c tr) st js))"
  using assms(1)
proof (induction js arbitrary: st)
  case Nil
  then show ?case by simp
next
  case (Cons k js)
  show ?case
  proof (cases "j = k")
    case True
    have "Error j e \<in> set (log (loop_body c tr st k))"
      using True assms(2,3) by (simp add: loop_body_def Let_def)
    with log_foldl_mono [of "loop_body c tr st k" c tr js] show ?thesis
      by auto
  next
    case False
    with Cons.prems have "j \<in> set js" by simp
    from Cons.IH [OF this, of "loop_body c tr st k"] show ?thesis by simp
  qed
qed

lemma map_filter_filter_None:
  "(\<And>x. x \<in> set xs \<Longrightarrow> \<not> P x \<Longrightarrow> f x = None) \<Longrightarrow> List.map_filter f (filter P xs) = List.map_filter f xs"
  by (induction xs) (auto split: option.splits)

lemma map_filter_cong_set:
  "(\<And>x. x \<in> set xs \<Longrightarrow> f x = g x) \<Longrightarrow> List.map_filter f xs = List.map_filter g xs"
  by (induction xs) (auto split: option.splits)

lemma processed_without:
  "j \<noteq> i \<Longrightarrow> processed c (filter (\<lambda>t. t_isin t \<noteq> i) tr) j = processed c tr j"
proof -
  assume "j \<noteq> i"
  then have "filter (\<lambda>t. t_isin t = j) (filter (\<lambda>t. t_isin t \<noteq> i) tr) = filter (\<lambda>t. t_isin t = j) tr"
    by (auto intro: filter_cong)
  then show ?thesis by (simp add: processed_def)
qed

lemma all_metrics_without:
  assumes "processed c tr i = None"
  shows "all_metrics (isin_loop c (filter (\<lambda>t. t_isin t \<noteq> i) tr)) = all_metrics (isin_loop c tr)"
proof -
  let ?tr' = "filter (\<lambda>t. t_isin t \<noteq> i) tr"
  have keys: "unique (map t_isin ?tr') = filter (\<lambda>j. j \<noteq> i) (unique (map t_isin tr))"
    by (simp add: filter_map comp_def unique_filter [symmetric])
  have "List.map_filter (processed c ?tr') (filter (\<lambda>j. j \<noteq> i) (unique (map t_isin tr)))
        = List.map_filter (processed c tr) (filter (\<lambda>j. j \<noteq> i) (unique (map t_isin tr)))"
    by (rule map_filter_cong_set) (simp add: processed_without)
  also have "\<dots> = List.map_filter (processed c tr) (unique (map t_isin tr))"
    by (rule map_filter_filter_None) (simp add: assms)
  finally show ?thesis
    by (simp add: all_metrics_isin_loop keys)
qed

lemma valid_isins_isin_loop:
  "valid_isins (isin_loop c tr) = length (all_metrics (isin_loop c tr))"
  by (simp add: isin_loop_def valid_isins_foldl all_metrics_foldl)

lemma hd_sort_key_in: "xs \<noteq> [] \<Longrightarrow> hd (sort_key f xs) \<in> set xs"
proof -
  assume "xs \<noteq> []"
  then have "sort_key f xs \<noteq> []" by (metis length_sort length_0_conv)
  then have "hd (sort_key f xs) \<in> set (sort_key f xs)" by (rule hd_in_set)
  then show ?thesis by simp
qed

lemma compute_depth_score_isin:
  assumes "r \<in> set (compute_depth_score g)" and "\<forall>t \<in> set g. t_isin t = j"
  shows "isin r = j"
proof -
  from assms(1) have "g \<noteq> []"
    by (auto simp: compute_depth_score_def sort_values_def Let_def)
  then have "hd (sort_key t_trade_ts g) \<in> set g" by (rule hd_sort_key_in)
  with assms(2) have "t_isin (hd (sort_key t_trade_ts g)) = j" by blast
  with assms(1) show ?thesis
    by (auto simp: compute_depth_score_def sort_values_def Let_def)
qed

lemma map_filter_mem:
  "y \<in> set (List.map_filter f xs) \<longleftrightarrow> (\<exists>x \<in> set xs. f x = Some y)"
  by (induction xs) (auto split: option.splits)

subsection \<open>Instruments with fewer than six trades\<close>

text \<open>
  Claim C4. An ISIN with fewer than 6 trades contributes no row: no frame appended by
  the loop and no row of the table written carries it, and the loop logs the warning
  with its trade count. An ISIN with at least 6 trades is processed: the frame that
  \<^verbatim>\<open>compute_depth_score\<close> returns for its trades is appended.
\<close>

theorem fewer_than_six_trades_skipped:
  "(length (filter (\<lambda>t. t_isin t = i) trades) < 6 \<longrightarrow>
      (\<forall>rows. metrics_engine trades = Some rows \<longrightarrow> (\<forall>r \<in> set rows. isin r \<noteq> i))
      \<and> (\<forall>m \<in> set (all_metrics (isin_loop (\<lambda>g. Inr (compute_depth_score g)) trades)).
            \<forall>r \<in> set m. isin r \<noteq> i)
      \<and> (i \<in> set (map t_isin trades) \<longrightarrow>
            Warning i (length (filter (\<lambda>t. t_isin t = i) trades))
              \<in> set (log (isin_loop (\<lambda>g. Inr (compute_depth_score g)) trades))))
   \<and> (6 \<le> length (filter (\<lambda>t. t_isin t = i) trades) \<longrightarrow>
        compute_depth_score (filter (\<lambda>t. t_isin t = i) trades)
          \<in> set (all_metrics (isin_loop (\<lambda>g. Inr (compute_depth_score g)) trades)))"
proof -
  let ?c = "\<lambda>g. Inr (compute_depth_score g) :: exn + metric list"
  let ?g = "filter (\<lambda>t. t_isin t = i) trades"
  have frames: "\<forall>r \<in> set m. isin r \<noteq> i"
    if short: "length ?g < 6" and m: "m \<in> set (all_metrics (isin_loop ?c trades))" for m
  proof
    fix r assume r: "r \<in> set m"
    from m obtain j where j: "processed ?c trades j = Some m"
      by (auto simp: all_metrics_isin_loop map_filter_mem)
    then have len: "5 < length (filter (\<lambda>t. t_isin t = j) trades)"
      and m_eq: "m = compute_depth_score (filter (\<lambda>t. t_isin t = j) trades)"
      by (auto simp: processed_def Let_def split: if_splits)
    from len short have "j \<noteq> i" by auto
    moreover have "isin r = j"
      using r unfolding m_eq by (rule compute_depth_score_isin) simp
    ultimately show "isin r \<noteq> i" by simp
  qed
  have rows: "\<forall>r \<in> set rows. isin r \<noteq> i"
    if short: "length ?g < 6" and t: "metrics_engine trades = Some rows" for rows
  proof
    fix r assume "r \<in> set rows"
    with t obtain m where "m \<in> set (all_metrics (isin_loop ?c trades))" "r \<in> set m"
      by (auto simp: metrics_engine_def metrics_table_def dropna_def Let_def split: if_splits)
    with frames [OF short] show "isin r \<noteq> i" by blast
  qed
  have warn: "Warning i (length ?g) \<in> set (log (isin_loop ?c trades))"
    if short: "length ?g < 6" and mem: "i \<in> set (map t_isin trades)"
  proof -
    from mem have "i \<in> set (unique (map t_isin trades))" by simp
    moreover from short have "\<not> 5 < length ?g" by simp
    ultimately show ?thesis
      unfolding isin_loop_def by (rule log_foldl_warning)
  qed
  have proc: "compute_depth_score ?g \<in> set (all_metrics (isin_loop ?c trades))"
    if long: "6 \<le> length ?g"
  proof -
    from long have "?g \<noteq> []" by auto
    then have "i \<in> set (unique (map t_isin trades))"
      by (auto simp: filter_empty_conv)
    moreover from long have "processed ?c trades i = Some (compute_depth_score ?g)"
      by (simp add: processed_def Let_def)
    ultimately show ?thesis
      by (auto simp: all_metrics_isin_loop map_filter_mem)
  qed
  from frames rows warn proc show ?thesis by blast
qed

theorem fewer_than_six_trades_skipped_witness:
  "length (filter (\<lambda>t. t_isin t = ''INA'') two_isin_trades) < 6
   \<and> ''INA'' \<notin> isin ` set (concat (all_metrics (isin_loop (\<lambda>g. Inr (compute_depth_score g)) two_isin_trades)))
   \<and> Warning ''INA'' 3 \<in> set (log (isin_loop (\<lambda>g. Inr (compute_depth_score g)) two_isin_trades))
   \<and> 6 \<le> length (filter (\<lambda>t. t_isin t = ''INB'') two_isin_trades)
   \<and> compute_depth_score (filter (\<lambda>t. t_isin t = ''INB'') two_isin_trades)
       \<in> set (all_metrics (isin_loop (\<lambda>g. Inr (compute_depth_score g)) two_isin_trades))"
proof -
  have a: "length (filter (\<lambda>t. t_isin t = ''INA'') two_isin_trades) = 3"
    by (simp add: two_isin_trades_def minute_trades_def upt_rec)
  have b: "length (filter (\<lambda>t. t_isin t = ''INB'') two_isin_trades) = 6"
    by (simp add: two_isin_trades_def minute_trades_def upt_rec)
  have m: "''INA'' \<in> set (map t_isin two_isin_trades)"
    by (simp add: two_isin_trades_def minute_trades_def upt_rec)
  from fewer_than_six_trades_skipped [of "''INA''" two_isin_trades]
       fewer_than_six_trades_skipped [of "''INB''" two_isin_trades] a b m
  show ?thesis by auto
qed

subsection \<open>The six-trade scenario\<close>

text \<open>
  Claim C5. Six trades of one ISIN, one minute apart, at the constant price 100 and
  the constant quantity 1,000,000: the table holds exactly one row, that of the sixth
  trade, with depth score 100 and spread 0. The first five rows of the frame have no
  depth score (the first row has no spread either) and are dropped.
\<close>

theorem six_trade_scenario:
  "metrics_engine (minute_trades i t0 100 1000000 6)
     = Some [\<lparr>isin = i, trade_ts = t0 + 300, depth_score = Some 100, spread = Some 0,
              time_since_last = Some 1, vwap = Some (Fin 100), volume_15min = Some 6000000,
              price = 100, qty_cr = 1000000\<rparr>]
   \<and> map depth_score (compute_depth_score (minute_trades i t0 100 1000000 6))
       = [None, None, None, None, None, Some 100]
   \<and> map spread (compute_depth_score (minute_trades i t0 100 1000000 6))
       = [None, Some 0, Some 0, Some 0, Some 0, Some 0]"
  by (simp add: minute_trades_def upt_6 engine_defs Let_def)

subsection \<open>A failing instrument\<close>

lemma processed_unfold:
  "processed compute trades
     = (\<lambda>j. if 5 < length (filter (\<lambda>t. t_isin t = j) trades)
             then (case compute (filter (\<lambda>t. t_isin t = j) trades) of Inr m \<Rightarrow> Some m | Inl x \<Rightarrow> None)
             else None)"
  by (rule ext) (simp add: processed_def Let_def)

text \<open>
  Claim C9. If the computation raises on the trades of one ISIN, the loop logs the
  error and goes on. The failing ISIN contributes no frame: the frames appended are
  those of the other ISINs with more than five trades on which the computation
  returns, in the order of their first appearance, and the counter of valid ISINs is
  their number. Every such frame is appended, and its rows without a missing value
  are in the table written. The frames, the counter and the table are those of the run
  on the trades without the failing ISIN.
\<close>

theorem isin_loop_isolates_failure:
  assumes "5 < length (filter (\<lambda>t. t_isin t = i) trades)"
    and "compute (filter (\<lambda>t. t_isin t = i) trades) = Inl e"
  shows "Error i e \<in> set (log (isin_loop compute trades))
       \<and> all_metrics (isin_loop compute trades)
           = all_metrics (isin_loop compute (filter (\<lambda>t. t_isin t \<noteq> i) trades))
       \<and> valid_isins (isin_loop compute trades)
           = valid_isins (isin_loop compute (filter (\<lambda>t. t_isin t \<noteq> i) trades))
       \<and> metrics_table compute trades
           = metrics_table compute (filter (\<lambda>t. t_isin t \<noteq> i) trades)
       \<and> all_metrics (isin_loop compute trades)
           = List.map_filter
               (\<lambda>j. if 5 < length (filter (\<lambda>t. t_isin t = j) trades)
                     then (case compute (filter (\<lambda>t. t_isin t = j) trades) of
                             Inr m \<Rightarrow> Some m | Inl x \<Rightarrow> None)
                     else None)
               (filter (\<lambda>j. j \<noteq> i) (unique (map t_isin trades)))
       \<and> valid_isins (isin_loop compute trades) = length (all_metrics (isin_loop compute trades))
       \<and> (\<forall>j m. j \<noteq> i \<and> 5 < length (filter (\<lambda>t. t_isin t = j) trades)
                  \<and> compute (filter (\<lambda>t. t_isin t = j) trades) = Inr m
              \<longrightarrow> m \<in> set (all_metrics (isin_loop compute trades))
                  \<and> (\<exists>rows. metrics_table compute trades = Some rows
                         \<and> set (dropna m) \<subseteq> set rows))"
proof -
  let ?F = "all_metrics (isin_loop compute trades)"
  from assms(1) have "filter (\<lambda>t. t_isin t = i) trades \<noteq> []" by auto
  then have "i \<in> set (unique (map t_isin trades))"
    by (auto simp: filter_empty_conv)
  then have err: "Error i e \<in> set (log (isin_loop compute trades))"
    unfolding isin_loop_def using assms by (rule log_foldl_error)
  have none: "processed compute trades i = None"
    using assms(2) by (simp add: processed_def Let_def)
  then have eq: "all_metrics (isin_loop compute (filter (\<lambda>t. t_isin t \<noteq> i) trades)) = ?F"
    by (rule all_metrics_without)
  have "?F = List.map_filter (processed compute trades) (filter (\<lambda>j. j \<noteq> i) (unique (map t_isin trades)))"
    unfolding all_metrics_isin_loop
    by (rule map_filter_filter_None [symmetric]) (simp add: none)
  then have char: "?F = List.map_filter
               (\<lambda>j. if 5 < length (filter (\<lambda>t. t_isin t = j) trades)
                     then (case compute (filter (\<lambda>t. t_isin t = j) trades) of
                             Inr m \<Rightarrow> Some m | Inl x \<Rightarrow> None)
                     else None)
               (filter (\<lambda>j. j \<noteq> i) (unique (map t_isin trades)))"
    unfolding processed_unfold .
  have others: "m \<in> set ?F \<and> (\<exists>rows. metrics_table compute trades = Some rows \<and> set (dropna m) \<subseteq> set rows)"
    if j: "j \<noteq> i" "5 < length (filter (\<lambda>t. t_isin t = j) trades)"
      "compute (filter (\<lambda>t. t_isin t = j) trades) = Inr m" for j m
  proof -
    from j(2) have "filter (\<lambda>t. t_isin t = j) trades \<noteq> []" by auto
    then have "j \<in> set (unique (map t_isin trades))" by (auto simp: filter_empty_conv)
    moreover from j have "processed compute trades j = Some m"
      by (simp add: processed_def Let_def)
    ultimately have mem: "m \<in> set ?F"
      by (auto simp: all_metrics_isin_loop map_filter_mem)
    then have "?F \<noteq> []" by auto
    then have tab: "metrics_table compute trades = Some (dropna (concat ?F))"
      by (simp add: metrics_table_def Let_def)
    from mem have "set (dropna m) \<subseteq> set (dropna (concat ?F))"
      by (auto simp: dropna_def)
    with mem tab show ?thesis by blast
  qed
  have same_frames: "?F = all_metrics (isin_loop compute (filter (\<lambda>t. t_isin t \<noteq> i) trades))"
    using eq by simp
  have same_count: "valid_isins (isin_loop compute trades)
                      = valid_isins (isin_loop compute (filter (\<lambda>t. t_isin t \<noteq> i) trades))"
    by (simp add: valid_isins_isin_loop eq)
  have same_table: "metrics_table compute trades
                      = metrics_table compute (filter (\<lambda>t. t_isin t \<noteq> i) trades)"
    by (simp add: metrics_table_def Let_def eq)
  have count: "valid_isins (isin_loop compute trades) = length ?F"
    by (rule valid_isins_isin_loop)
  have all_others: "\<forall>j m. j \<noteq> i \<and> 5 < length (filter (\<lambda>t. t_isin t = j) trades)
                  \<and> compute (filter (\<lambda>t. t_isin t = j) trades) = Inr m
              \<longrightarrow> m \<in> set ?F
                  \<and> (\<exists>rows. metrics_table compute trades = Some rows
                         \<and> set (dropna m) \<subseteq> set rows)"
    using others by blast
  show ?thesis
    by (intro conjI) (fact err same_frames same_count same_table char count all_others)+
qed

theorem isin_loop_isolates_failure_witness:
  "5 < length (filter (\<lambda>t. t_isin t = ''INB'') failing_pair_trades)
   \<and> failing_compute ''INB'' (filter (\<lambda>t. t_isin t = ''INB'') failing_pair_trades)
       = Inl (Exception ''TypeError'')
   \<and> Error ''INB'' (Exception ''TypeError'')
       \<in> set (log (isin_loop (failing_compute ''INB'') failing_pair_trades))
   \<and> valid_isins (isin_loop (failing_compute ''INB'') failing_pair_trades) = 1
   \<and> metrics_table (failing_compute ''INB'') failing_pair_trades
       = Some [\<lparr>isin = ''INA'', trade_ts = 300, depth_score = Some 100, spread = Some 0,
                time_since_last = Some 1, vwap = Some (Fin 100), volume_15min = Some 6000000,
                price = 100, qty_cr = 1000000\<rparr>]"
proof -
  have h1: "5 < length (filter (\<lambda>t. t_isin t = ''INB'') failing_pair_trades)"
    by (simp add: failing_pair_trades_def minute_trades_def upt_rec)
  have h2: "failing_compute ''INB'' (filter (\<lambda>t. t_isin t = ''INB'') failing_pair_trades)
              = Inl (Exception ''TypeError'')"
    by (simp add: failing_compute_def failing_pair_trades_def minute_trades_def upt_rec)
  have rest: "filter (\<lambda>t. t_isin t \<noteq> ''INB'') failing_pair_trades = minute_trades ''INA'' 0 100 1000000 6"
    by (simp add: failing_pair_trades_def minute_trades_def)
  have tab: "metrics_table (failing_compute ''INB'') (minute_trades ''INA'' 0 100 1000000 6)
       = Some [\<lparr>isin = ''INA'', trade_ts = 300, depth_score = Some 100, spread = Some 0,
                time_since_last = Some 1, vwap = Some (Fin 100), volume_15min = Some 6000000,
                price = 100, qty_cr = 1000000\<rparr>]"
    by (simp add: minute_trades_def upt_6 failing_compute_def engine_defs Let_def)
  have cnt: "valid_isins (isin_loop (failing_compute ''INB'') (minute_trades ''INA'' 0 100 1000000 6)) = 1"
    by (simp add: minute_trades_def upt_6 failing_compute_def isin_loop_def loop_body_def Let_def)
  from isin_loop_isolates_failure
         [where i = "''INB''" and trades = failing_pair_trades
            and compute = "failing_compute ''INB''" and e = "Exception ''TypeError''", OF h1 h2]
       h1 h2 tab cnt
  show ?thesis unfolding rest by simp
qed

section \<open>Properties of the grid\<close>

subsection \<open>The latest record of each ISIN\<close>

lemma fold_max_Max: "fold max xs (x::int) = Max (set (x # xs))"
  by (rule Max.set_eq_fold [symmetric])

lemma find_filter: "List.find P (filter Q xs) = List.find (\<lambda>x. Q x \<and> P x) xs"
  by (induction xs) auto

lemma idxmax_row_Some:
  assumes "g \<noteq> []"
  shows "\<exists>r. idxmax_row g = Some r \<and> r \<in> set g \<and> (\<forall>x \<in> set g. trade_ts x \<le> trade_ts r)
             \<and> List.find (\<lambda>x. trade_ts x = trade_ts r) g = Some r"
proof -
  from assms obtain r0 rs where g: "g = r0 # rs" by (cases g) auto
  define mx where "mx = Max (set (map trade_ts g))"
  have fold: "fold max (map trade_ts rs) (trade_ts r0) = mx"
    by (simp add: mx_def g fold_max_Max)
  have "mx \<in> set (map trade_ts g)"
    unfolding mx_def using assms by (intro Max_in) auto
  then obtain y where "y \<in> set g" "trade_ts y = mx" by auto
  then have "List.find (\<lambda>x. trade_ts x = mx) g \<noteq> None"
    by (auto simp: find_None_iff)
  then obtain r where r: "List.find (\<lambda>x. trade_ts x = mx) g = Some r" by auto
  then have rin: "r \<in> set g" and rmx: "trade_ts r = mx"
    by (auto simp: find_Some_iff)
  have le: "\<forall>x \<in> set g. trade_ts x \<le> trade_ts r"
    unfolding rmx mx_def by (auto intro: Max_ge)
  have "idxmax_row (r0 # rs) = List.find (\<lambda>x. trade_ts x = mx) (r0 # rs)"
    unfolding idxmax_row_def list.case fold by (rule refl)
  with r have "idxmax_row g = Some r"
    unfolding g by simp
  with rin le r rmx show ?thesis by auto
qed

lemma map_filter_keys:
  "(\<And>i. i \<in> set ks \<Longrightarrow> \<exists>r. f i = Some r \<and> key r = i) \<Longrightarrow> map key (List.map_filter f ks) = ks"
proof (induction ks)
  case Nil
  then show ?case by simp
next
  case (Cons k ks)
  from Cons.prems [of k] obtain r where "f k = Some r" "key r = k" by auto
  moreover have "map key (List.map_filter f ks) = ks"
    by (rule Cons.IH) (simp add: Cons.prems)
  ultimately show ?case by simp
qed

lemma latest_group:
  assumes "i \<in> set (map isin m)"
  shows "\<exists>r. idxmax_row (filter (\<lambda>r. isin r = i) m) = Some r \<and> isin r = i \<and> r \<in> set m
           \<and> (\<forall>x \<in> set m. isin x = i \<longrightarrow> trade_ts x \<le> trade_ts r)
           \<and> List.find (\<lambda>x. isin x = i \<and> trade_ts x = trade_ts r) m = Some r"
proof -
  let ?g = "filter (\<lambda>r. isin r = i) m"
  from assms have "?g \<noteq> []" by (auto simp: filter_empty_conv)
  from idxmax_row_Some [OF this] obtain r where
    r: "idxmax_row ?g = Some r" "r \<in> set ?g" "\<forall>x \<in> set ?g. trade_ts x \<le> trade_ts r"
       "List.find (\<lambda>x. trade_ts x = trade_ts r) ?g = Some r"
    by blast
  from r(4) have "List.find (\<lambda>x. isin x = i \<and> trade_ts x = trade_ts r) m = Some r"
    by (simp add: find_filter)
  with r show ?thesis by auto
qed

lemma latest_metrics_isins: "map isin (latest_metrics m) = sort (remdups (map isin m))"
  unfolding latest_metrics_def
proof (rule map_filter_keys)
  fix i assume "i \<in> set (sort (remdups (map isin m)))"
  then have "i \<in> set (map isin m)" by simp
  from latest_group [OF this]
  show "\<exists>r. idxmax_row (filter (\<lambda>r. isin r = i) m) = Some r \<and> isin r = i" by blast
qed

lemma latest_metrics_mem:
  assumes "r \<in> set (latest_metrics m)"
  shows "r \<in> set m \<and> (\<forall>x \<in> set m. isin x = isin r \<longrightarrow> trade_ts x \<le> trade_ts r)
         \<and> List.find (\<lambda>x. isin x = isin r \<and> trade_ts x = trade_ts r) m = Some r"
proof -
  from assms obtain i where i: "i \<in> set (map isin m)"
    and ri: "idxmax_row (filter (\<lambda>r. isin r = i) m) = Some r"
    by (auto simp: latest_metrics_def map_filter_mem)
  from latest_group [OF i] ri show ?thesis by auto
qed

text \<open>
  Claim C10. The selection keeps exactly one row for every ISIN of the frame, in the
  order of the sorted ISINs: a row of the frame whose timestamp is the greatest of its
  ISIN, and among the rows of that ISIN with that timestamp the first of the frame.
\<close>

theorem latest_one_per_isin:
  "map isin (latest_metrics m) = sort (remdups (map isin m))
   \<and> distinct (map isin (latest_metrics m))
   \<and> set (map isin (latest_metrics m)) = set (map isin m)
   \<and> length (latest_metrics m) = card (set (map isin m))
   \<and> (\<forall>r \<in> set (latest_metrics m).
        r \<in> set m
        \<and> (\<forall>x \<in> set m. isin x = isin r \<longrightarrow> trade_ts x \<le> trade_ts r)
        \<and> List.find (\<lambda>x. isin x = isin r \<and> trade_ts x = trade_ts r) m = Some r)"
proof -
  have keys: "map isin (latest_metrics m) = sort (remdups (map isin m))"
    by (rule latest_metrics_isins)
  have "length (latest_metrics m) = length (map isin (latest_metrics m))" by simp
  also have "\<dots> = card (set (map isin m))"
    unfolding keys by (simp add: length_remdups_card_conv)
  finally have len: "length (latest_metrics m) = card (set (map isin m))" .
  from keys have d: "distinct (map isin (latest_metrics m))" by simp
  from keys have s: "set (map isin (latest_metrics m)) = set (map isin m)" by simp
  from keys d s len latest_metrics_mem show ?thesis by blast
qed

theorem latest_one_per_isin_witness:
  "map isin (latest_metrics tied_rows) = [''INA'', ''INB'']
   \<and> map depth_score (latest_metrics tied_rows) = [Some 20, Some 60]"
proof -
  have "sort (remdups (map isin tied_rows)) = [''INA'', ''INB'']"
    by (simp add: tied_rows_def mk_row_def)
  moreover have "map depth_score (latest_metrics tied_rows) = [Some 20, Some 60]"
    by (simp add: tied_rows_def mk_row_def latest_metrics_def idxmax_row_def)
  ultimately show ?thesis
    using latest_one_per_isin [of tied_rows] by simp
qed

subsection \<open>Tenor buckets\<close>

lemma set_present: "set (present xs) = {x. Some x \<in> set xs}"
  by (induction xs rule: present.induct) auto










subsection \<open>Trade counts of the cells\<close>



lemma assign_tenor_fields [simp]:
  "isin (assign_tenor r) = isin r" "trade_ts (assign_tenor r) = trade_ts r"
  "rating (assign_tenor r) = rating r" "vwap (assign_tenor r) = vwap r"
  "maturity_date (assign_tenor r) = maturity_date r"
  by (simp_all add: assign_tenor_def Let_def)




lemma latest_metrics_subset: "set (latest_metrics m) \<subseteq> set m"
  using latest_metrics_mem by blast

lemma classify_fields [simp]:
  "map n_trades (classify g) = map n_trades g"
  "map cell_rating (classify g) = map cell_rating g"
  "map cell_tenor_bucket (classify g) = map cell_tenor_bucket g"
  "map cell_vwap (classify g) = map cell_vwap g"
  "map depth (classify g) = map depth g"
  "map cell_spread (classify g) = map cell_spread g"
  by (simp_all add: classify_def Let_def comp_def)

lemma render_Some:
  assumes "render m = (fr, Some (g, th))"
  shows "fr = map assign_tenor m \<and> g = classify (make_grid (latest_metrics fr))
         \<and> th = grid_thresholds (make_grid (latest_metrics fr))"
  using assms by (auto simp: render_def Let_def split: if_splits)

lemma classify_mem:
  "c \<in> set (classify g) \<Longrightarrow>
   \<exists>c0 \<in> set g. c = c0\<lparr>cell_colour := Some (colour (p25 (grid_thresholds g)) (p75 (grid_thresholds g))
                                           (median_spread (grid_thresholds g)) c0)\<rparr>"
  by (auto simp: classify_def Let_def)

lemma make_grid_mem:
  "c \<in> set (make_grid lm) \<Longrightarrow> \<exists>rt tb. c = agg_cell lm rt tb"
  by (auto simp: make_grid_def)


lemma latest_metrics_nonempty: "m \<noteq> [] \<Longrightarrow> latest_metrics m \<noteq> []"
proof
  assume "m \<noteq> []" and "latest_metrics m = []"
  then have "sort (remdups (map isin m)) = []"
    using latest_metrics_isins [of m] by simp
  then have "set (sort (remdups (map isin m))) = {}" by simp
  with \<open>m \<noteq> []\<close> show False by simp
qed

lemma render_nonempty:
  "m \<noteq> [] \<Longrightarrow>
   render m = (map assign_tenor m,
               Some (classify (make_grid (latest_metrics (map assign_tenor m))),
                     grid_thresholds (make_grid (latest_metrics (map assign_tenor m)))))"
  using latest_metrics_nonempty [of "map assign_tenor m"]
  by (simp add: render_def Let_def)

lemmas grid_eval = mk_row_def assign_tenor_def bins_def labels_def latest_metrics_def
  idxmax_row_def make_grid_def agg_cell_def populated_def median_def Let_def



subsection \<open>The vwap of a cell\<close>

lemma present_map: "present (map f xs) = map (\<lambda>x. the (f x)) (filter (\<lambda>x. f x \<noteq> None) xs)"
  by (induction xs) auto

lemma sorted_map_last:
  "sorted (map f xs) \<Longrightarrow> x \<in> set xs \<Longrightarrow> f x \<le> f (last xs)"
proof (induction xs)
  case Nil
  then show ?case by simp
next
  case (Cons y ys)
  then show ?case by (cases "ys = []") auto
qed

text \<open>
  Claim C7, as amended. The vwap of a cell is the vwap of one of its contributing
  latest records, the one with the greatest ISIN among those that have a vwap: the
  latest records are in the order of the sorted ISINs, and \<^verbatim>\<open>last\<close> takes the
  last of them.
\<close>

theorem cell_vwap_last_by_isin:
  assumes "render m = (fr, Some (g, th))" and "c \<in> set g" and "cell_vwap c = Some v"
  shows "\<exists>r \<in> set (latest_metrics fr).
           rating r = Some (cell_rating c) \<and> tenor_bucket r = Some (cell_tenor_bucket c)
           \<and> vwap r = Some v
           \<and> (\<forall>x \<in> set (latest_metrics fr).
                 rating x = Some (cell_rating c) \<and> tenor_bucket x = Some (cell_tenor_bucket c)
                 \<and> vwap x \<noteq> None \<longrightarrow> isin x \<le> isin r)"
proof -
  let ?lm = "latest_metrics fr"
  from render_Some [OF assms(1)] have g: "g = classify (make_grid ?lm)" by simp
  from assms(2) g obtain c0 where c0: "c0 \<in> set (make_grid ?lm)"
    and c: "cell_vwap c = cell_vwap c0" "cell_rating c = cell_rating c0"
           "cell_tenor_bucket c = cell_tenor_bucket c0"
    by (auto dest!: classify_mem)
  from c0 obtain rt tb where cell: "c0 = agg_cell ?lm rt tb" by (auto dest: make_grid_mem)
  define H where "H = filter (\<lambda>r. vwap r \<noteq> None)
                        (filter (\<lambda>r. rating r = Some rt \<and> tenor_bucket r = Some tb) ?lm)"
  have keys: "cell_rating c = rt" "cell_tenor_bucket c = tb"
    by (simp_all add: c cell agg_cell_def Let_def)
  have vw: "cell_vwap c = (case map (\<lambda>x. the (vwap x)) H of [] \<Rightarrow> None | v # vs \<Rightarrow> Some (last (v # vs)))"
    by (simp add: c cell agg_cell_def Let_def present_map H_def)
  with assms(3) have ne: "H \<noteq> []" by (auto split: list.splits)
  then obtain y ys where "map (\<lambda>x. the (vwap x)) H = y # ys"
    by (cases H) auto
  with vw have "cell_vwap c = Some (last (map (\<lambda>x. the (vwap x)) H))" by simp
  with assms(3) have "v = last (map (\<lambda>x. the (vwap x)) H)" by simp
  with ne have v: "v = the (vwap (last H))" by (simp add: last_map)
  from ne have inH: "last H \<in> set H" by simp
  then have r: "last H \<in> set ?lm" "rating (last H) = Some rt" "tenor_bucket (last H) = Some tb"
    "vwap (last H) \<noteq> None"
    by (auto simp: H_def)
  with v have vr: "vwap (last H) = Some v" by auto
  have "sorted (map isin ?lm)" by (simp add: latest_metrics_isins)
  then have sorted: "sorted (map isin H)"
    unfolding H_def by (intro sorted_filter)
  have "isin x \<le> isin (last H)"
    if "x \<in> set ?lm" "rating x = Some rt" "tenor_bucket x = Some tb" "vwap x \<noteq> None" for x
  proof -
    from that have "x \<in> set H" by (simp add: H_def)
    with sorted show ?thesis by (rule sorted_map_last)
  qed
  with r vr keys show ?thesis by blast
qed

theorem cell_vwap_last_by_isin_witness:
  "render three_rows
     = (map assign_tenor three_rows,
        Some (classify (make_grid (latest_metrics (map assign_tenor three_rows))),
              grid_thresholds (make_grid (latest_metrics (map assign_tenor three_rows)))))
   \<and> (\<exists>c \<in> set (classify (make_grid (latest_metrics (map assign_tenor three_rows)))).
        cell_vwap c = Some (Fin 2)
        \<and> (\<exists>r \<in> set (latest_metrics (map assign_tenor three_rows)).
              rating r = Some (cell_rating c) \<and> tenor_bucket r = Some (cell_tenor_bucket c)
              \<and> vwap r = Some (Fin 2)))"
proof -
  have ne: "three_rows \<noteq> []" by (simp add: three_rows_def)
  let ?g = "classify (make_grid (latest_metrics (map assign_tenor three_rows)))"
  have "Some (Fin 2) \<in> set (map cell_vwap (make_grid (latest_metrics (map assign_tenor three_rows))))"
    by (simp add: three_rows_def grid_eval)
  then have "Some (Fin 2) \<in> set (map cell_vwap ?g)" by simp
  then have "\<exists>c \<in> set ?g. Some (Fin 2) = cell_vwap c"
    unfolding set_map image_iff .
  then obtain c where c: "c \<in> set ?g" "cell_vwap c = Some (Fin 2)" by metis
  from cell_vwap_last_by_isin [OF render_nonempty [OF ne] c] c render_nonempty [OF ne]
  show ?thesis by blast
qed

text \<open>
  Claim C7 as stated fails: in the cell of rating AAA and bucket \<open>1-3y\<close> the record
  with the later timestamp has vwap 1, and the cell has vwap 2, that of the record
  with the greater ISIN.
\<close>

theorem cell_vwap_most_recent_counterexample:
  "cell_vwap (agg_cell (latest_metrics (map assign_tenor three_rows)) ''AAA'' ''1-3y'') = Some (Fin 2)
   \<and> agg_cell (latest_metrics (map assign_tenor three_rows)) ''AAA'' ''1-3y''
       \<in> set (make_grid (latest_metrics (map assign_tenor three_rows)))
   \<and> spec_most_recent_vwap
        (filter (\<lambda>r. rating r = Some ''AAA'' \<and> tenor_bucket r = Some ''1-3y'')
           (latest_metrics (map assign_tenor three_rows))) = Some (Fin 1)"
  by (simp add: three_rows_def grid_eval spec_most_recent_vwap_def)

subsection \<open>Thresholds and colours\<close>

lemma quantile_mono:
  assumes ne: "xs \<noteq> []" and q: "0 \<le> q1" "q1 \<le> q2" "q2 \<le> 1"
  shows "\<exists>a b. quantile xs q1 = Some a \<and> quantile xs q2 = Some b \<and> a \<le> b"
proof -
  define s where "s = sort xs"
  define n where "n = length s"
  have n: "0 < n" using ne by (simp add: n_def s_def)
  have srt: "sorted s" by (simp add: s_def)
  define Q where "Q = (\<lambda>q::rat. let pos = of_nat (n - 1) * q; lo = nat \<lfloor>pos\<rfloor>; hi = min (lo + 1) (n - 1)
                          in s ! lo + (s ! hi - s ! lo) * (pos - of_nat lo))"
  have quant: "quantile xs q = Some (Q q)" for q
    using ne by (simp add: quantile_def Q_def s_def n_def Let_def)
  have facts: "nat \<lfloor>of_nat (n - 1) * q\<rfloor> \<le> n - 1
             \<and> 0 \<le> of_nat (n - 1) * q - of_nat (nat \<lfloor>of_nat (n - 1) * q\<rfloor>)
             \<and> of_nat (n - 1) * q - of_nat (nat \<lfloor>of_nat (n - 1) * q\<rfloor>) \<le> 1"
    if "0 \<le> q" "q \<le> 1" for q :: rat
  proof -
    let ?pos = "of_nat (n - 1) * q :: rat"
    have p0: "0 \<le> ?pos" using that by simp
    have p1: "?pos \<le> of_nat (n - 1)" using that by (simp add: mult_left_le)
    have f0: "0 \<le> \<lfloor>?pos\<rfloor>" using p0 by simp
    have "\<lfloor>?pos\<rfloor> \<le> \<lfloor>of_nat (n - 1) :: rat\<rfloor>" using p1 by (rule floor_mono)
    then have "\<lfloor>?pos\<rfloor> \<le> int (n - 1)" by simp
    then have a: "nat \<lfloor>?pos\<rfloor> \<le> n - 1" by simp
    have eq: "(of_nat (nat \<lfloor>?pos\<rfloor>) :: rat) = of_int \<lfloor>?pos\<rfloor>" using f0 by simp
    have b: "0 \<le> ?pos - of_nat (nat \<lfloor>?pos\<rfloor>)" unfolding eq by simp
    have c: "?pos - of_nat (nat \<lfloor>?pos\<rfloor>) \<le> 1" unfolding eq by linarith
    from a b c show ?thesis by blast
  qed
  have bounds: "s ! (nat \<lfloor>of_nat (n - 1) * q\<rfloor>) \<le> Q q
              \<and> Q q \<le> s ! (min (nat \<lfloor>of_nat (n - 1) * q\<rfloor> + 1) (n - 1))"
    if "0 \<le> q" "q \<le> 1" for q :: rat
  proof -
    let ?pos = "of_nat (n - 1) * q :: rat"
    let ?lo = "nat \<lfloor>?pos\<rfloor>"
    let ?hi = "min (?lo + 1) (n - 1)"
    let ?f = "?pos - of_nat ?lo"
    from facts [OF that] have lo: "?lo \<le> n - 1" and f0: "0 \<le> ?f" and f1: "?f \<le> 1" by blast+
    have "?lo \<le> ?hi" using lo by simp
    moreover have "?hi < length s"
    proof -
      have "?hi \<le> n - 1" by simp
      with n show ?thesis unfolding n_def by linarith
    qed
    ultimately have le: "s ! ?lo \<le> s ! ?hi" using srt by (simp add: sorted_nth_mono)
    have Qq: "Q q = s ! ?lo + (s ! ?hi - s ! ?lo) * ?f" by (simp add: Q_def Let_def)
    have "0 \<le> (s ! ?hi - s ! ?lo) * ?f" using le f0 by simp
    moreover have "(s ! ?hi - s ! ?lo) * ?f \<le> (s ! ?hi - s ! ?lo) * 1"
      using le f1 by (intro mult_left_mono) simp_all
    ultimately show ?thesis unfolding Qq by simp
  qed
  have q1: "0 \<le> q1" "q1 \<le> 1" and q2: "0 \<le> q2" "q2 \<le> 1" using q by simp_all
  let ?p1 = "of_nat (n - 1) * q1 :: rat" and ?p2 = "of_nat (n - 1) * q2 :: rat"
  let ?l1 = "nat \<lfloor>?p1\<rfloor>" and ?l2 = "nat \<lfloor>?p2\<rfloor>"
  have pos: "?p1 \<le> ?p2" using q by (simp add: mult_left_mono)
  then have "\<lfloor>?p1\<rfloor> \<le> \<lfloor>?p2\<rfloor>" by (rule floor_mono)
  then have l12: "?l1 \<le> ?l2" by simp
  have "Q q1 \<le> Q q2"
  proof (cases "?l1 = ?l2")
    case True
    let ?hi = "min (?l1 + 1) (n - 1)"
    from facts [OF q1] have lo: "?l1 \<le> n - 1" by blast
    have "?l1 \<le> ?hi" using lo by simp
    moreover have "?hi < length s"
    proof -
      have "?hi \<le> n - 1" by simp
      with n show ?thesis unfolding n_def by linarith
    qed
    ultimately have le: "s ! ?l1 \<le> s ! ?hi" using srt by (simp add: sorted_nth_mono)
    have "(s ! ?hi - s ! ?l1) * (?p1 - of_nat ?l1) \<le> (s ! ?hi - s ! ?l1) * (?p2 - of_nat ?l1)"
      using le pos by (intro mult_left_mono) simp_all
    then show ?thesis
      unfolding Q_def Let_def True [symmetric] by simp
  next
    case False
    with l12 have lt: "?l1 + 1 \<le> ?l2" by simp
    from facts [OF q2] have l2: "?l2 \<le> n - 1" by blast
    have "min (?l1 + 1) (n - 1) \<le> ?l1 + 1" by (rule min.cobounded1)
    with lt have "min (?l1 + 1) (n - 1) \<le> ?l2" by linarith
    moreover have "?l2 < length s" using l2 n unfolding n_def by linarith
    ultimately have "s ! (min (?l1 + 1) (n - 1)) \<le> s ! ?l2"
      using srt by (simp add: sorted_nth_mono)
    with bounds [OF q1] bounds [OF q2] show ?thesis by linarith
  qed
  with quant show ?thesis by blast
qed

lemma median_nonneg:
  assumes "\<forall>x \<in> set xs. 0 \<le> x" and "median xs = Some y"
  shows "0 \<le> y"
proof -
  define s where "s = sort xs"
  define n where "n = length s"
  from assms(2) have ne: "xs \<noteq> []" by (auto simp: median_def)
  then have n: "0 < n" by (simp add: n_def s_def)
  have nth: "0 \<le> s ! i" if "i < n" for i
  proof -
    from that have "s ! i \<in> set s" by (simp add: n_def)
    then have "s ! i \<in> set xs" by (simp add: s_def)
    with assms(1) show ?thesis by blast
  qed
  have "y = (if odd n then s ! (n div 2) else (s ! (n div 2 - 1) + s ! (n div 2)) / 2)"
    using assms(2) ne by (simp add: median_def s_def n_def Let_def split: if_splits)
  moreover have "n div 2 < n" using n by simp
  moreover have "n div 2 - 1 < n" using n by simp
  ultimately show ?thesis using nth [of "n div 2"] nth [of "n div 2 - 1"] by auto
qed










text \<open>
  Claim C2. The colour of a cell is red if its depth is missing, or below \<open>p25\<close>, or
  its spread is above 1.5 times the median spread; otherwise green if its depth is at
  least \<open>p75\<close> and its spread at most the median spread; otherwise amber. A cell
  whose depth equals \<open>p25\<close> is not red unless its spread makes it so, and a cell
  whose depth equals \<open>p75\<close> and whose spread equals the median spread is green. The
  last part needs \<open>p25 \<le> p75\<close>, which holds for the quantiles of any grid, and a
  median spread that is not negative, which holds as the spreads of the records are
  absolute values.
\<close>

theorem colour_priority:
  assumes "render m = (fr, Some (g, th))" and "c \<in> set g"
    and "\<forall>r \<in> set m. \<forall>s. spread r = Some s \<longrightarrow> 0 \<le> s"
  shows "cell_colour c =
           Some (if depth c = None
                    \<or> (\<exists>d p. depth c = Some d \<and> p25 th = Some p \<and> d < p)
                    \<or> (\<exists>s ms. cell_spread c = Some s \<and> median_spread th = Some ms \<and> ms * (3 / 2) < s)
                 then red
                 else if (\<exists>d p. depth c = Some d \<and> p75 th = Some p \<and> p \<le> d)
                         \<and> (\<exists>s ms. cell_spread c = Some s \<and> median_spread th = Some ms \<and> s \<le> ms)
                 then green
                 else amber)
       \<and> (depth c \<noteq> None \<and> depth c = p25 th
            \<and> \<not> (\<exists>s ms. cell_spread c = Some s \<and> median_spread th = Some ms \<and> ms * (3 / 2) < s)
          \<longrightarrow> cell_colour c \<noteq> Some red)
       \<and> (depth c \<noteq> None \<and> depth c = p75 th \<and> cell_spread c \<noteq> None \<and> cell_spread c = median_spread th
          \<longrightarrow> cell_colour c = Some green)"
proof -
  let ?lm = "latest_metrics fr"
  let ?G = "make_grid ?lm"
  from render_Some [OF assms(1)] have fr: "fr = map assign_tenor m"
    and g: "g = classify ?G" and th: "th = grid_thresholds ?G" by simp_all
  from assms(2) obtain c0 where c0: "c0 \<in> set ?G"
    and c: "c = c0\<lparr>cell_colour := Some (colour (p25 th) (p75 th) (median_spread th) c0)\<rparr>"
    unfolding g th by (auto dest!: classify_mem)
  have same: "colour (p25 th) (p75 th) (median_spread th) c0 = colour (p25 th) (p75 th) (median_spread th) c"
    by (simp add: c colour_def)
  have col: "cell_colour c = Some (colour (p25 th) (p75 th) (median_spread th) c)"
    unfolding same [symmetric] by (simp add: c)
  have first: "cell_colour c =
           Some (if depth c = None
                    \<or> (\<exists>d p. depth c = Some d \<and> p25 th = Some p \<and> d < p)
                    \<or> (\<exists>s ms. cell_spread c = Some s \<and> median_spread th = Some ms \<and> ms * (3 / 2) < s)
                 then red
                 else if (\<exists>d p. depth c = Some d \<and> p75 th = Some p \<and> p \<le> d)
                         \<and> (\<exists>s ms. cell_spread c = Some s \<and> median_spread th = Some ms \<and> s \<le> ms)
                 then green
                 else amber)"
    unfolding col colour_def
    by (cases "depth c"; cases "cell_spread c"; cases "p25 th"; cases "p75 th";
        cases "median_spread th"; simp add: nan_less_def nan_le_def)
  have neq: "red \<noteq> amber" "red \<noteq> green" "amber \<noteq> green"
    by (simp_all add: red_def amber_def green_def)
  have second: "cell_colour c \<noteq> Some red"
    if d: "depth c \<noteq> None" "depth c = p25 th"
      and sp: "\<not> (\<exists>s ms. cell_spread c = Some s \<and> median_spread th = Some ms \<and> ms * (3 / 2) < s)"
  proof -
    from d have "\<not> (\<exists>d p. depth c = Some d \<and> p25 th = Some p \<and> d < p)" by auto
    with d(1) sp have nR: "\<not> (depth c = None
                    \<or> (\<exists>d p. depth c = Some d \<and> p25 th = Some p \<and> d < p)
                    \<or> (\<exists>s ms. cell_spread c = Some s \<and> median_spread th = Some ms \<and> ms * (3 / 2) < s))"
      by blast
    have "cell_colour c = Some green \<or> cell_colour c = Some amber"
      unfolding first if_not_P [OF nR] by simp
    with neq show ?thesis by auto
  qed
  have third: "cell_colour c = Some green"
    if d: "depth c \<noteq> None" "depth c = p75 th" and s: "cell_spread c \<noteq> None" "cell_spread c = median_spread th"
  proof -
    from d obtain dv where dv: "depth c = Some dv" "p75 th = Some dv" by auto
    from s obtain sv where sv: "cell_spread c = Some sv" "median_spread th = Some sv" by auto
    have "depth c \<in> set (map depth ?G)" using c0 c by (auto simp: image_iff)
    with dv have "dv \<in> set (present (map depth ?G))" by (simp add: set_present)
    then have "present (map depth ?G) \<noteq> []" by auto
    from quantile_mono [OF this, of "1 / 4" "3 / 4"] obtain a b where
      ab: "quantile (present (map depth ?G)) (1 / 4) = Some a"
          "quantile (present (map depth ?G)) (3 / 4) = Some b" "a \<le> b"
      by auto
    with dv have p25: "p25 th = Some a" and le: "a \<le> dv"
      by (simp_all add: th grid_thresholds_def)
    have cell_nonneg: "0 \<le> y" if "y \<in> set (present (map cell_spread ?G))" for y
    proof -
      from that obtain c1 where c1: "c1 \<in> set ?G" "cell_spread c1 = Some y"
        by (auto simp: set_present)
      then obtain rt tb where "c1 = agg_cell ?lm rt tb" by (auto dest: make_grid_mem)
      with c1 have med: "median (present (map spread
          (filter (\<lambda>r. rating r = Some rt \<and> tenor_bucket r = Some tb) ?lm))) = Some y"
        by (simp add: agg_cell_def Let_def)
      have "0 \<le> x" if "x \<in> set (present (map spread
          (filter (\<lambda>r. rating r = Some rt \<and> tenor_bucket r = Some tb) ?lm)))" for x
      proof -
        from that obtain r where r: "r \<in> set ?lm" "spread r = Some x"
          by (auto simp: set_present)
        with latest_metrics_subset have "r \<in> set fr" by blast
        then obtain r0 where r0: "r0 \<in> set m" "r = assign_tenor r0"
          unfolding fr by auto
        with r have "spread r0 = Some x"
          by (simp add: assign_tenor_def Let_def)
        with r0 assms(3) show ?thesis by blast
      qed
      then have "\<forall>x \<in> set (present (map spread
          (filter (\<lambda>r. rating r = Some rt \<and> tenor_bucket r = Some tb) ?lm))). 0 \<le> x" by blast
      then show ?thesis using med by (rule median_nonneg)
    qed
    have "0 \<le> sv"
    proof (rule median_nonneg)
      show "\<forall>x \<in> set (present (map cell_spread ?G)). 0 \<le> x" using cell_nonneg by blast
      show "median (present (map cell_spread ?G)) = Some sv"
        using sv by (simp add: th grid_thresholds_def)
    qed
    then have ns: "\<not> sv * (3 / 2) < sv" by simp
    from le have nd: "\<not> dv < a" by simp
    from dv sv p25 nd ns have nR: "\<not> (depth c = None
                    \<or> (\<exists>d p. depth c = Some d \<and> p25 th = Some p \<and> d < p)
                    \<or> (\<exists>s ms. cell_spread c = Some s \<and> median_spread th = Some ms \<and> ms * (3 / 2) < s))"
      by auto
    from dv sv have G: "(\<exists>d p. depth c = Some d \<and> p75 th = Some p \<and> p \<le> d)
                         \<and> (\<exists>s ms. cell_spread c = Some s \<and> median_spread th = Some ms \<and> s \<le> ms)"
      by auto
    show ?thesis
      unfolding first if_not_P [OF nR] if_P [OF G] by (rule refl)
  qed
  from first second third show ?thesis by blast
qed

theorem colour_priority_witness:
  "render [day_row 400]
     = (map assign_tenor [day_row 400],
        Some (classify (make_grid (latest_metrics (map assign_tenor [day_row 400]))),
              grid_thresholds (make_grid (latest_metrics (map assign_tenor [day_row 400])))))
   \<and> depth (classify (make_grid (latest_metrics (map assign_tenor [day_row 400]))) ! 1) = Some 40
   \<and> p25 (grid_thresholds (make_grid (latest_metrics (map assign_tenor [day_row 400])))) = Some 40
   \<and> p75 (grid_thresholds (make_grid (latest_metrics (map assign_tenor [day_row 400])))) = Some 40
   \<and> cell_spread (classify (make_grid (latest_metrics (map assign_tenor [day_row 400]))) ! 1) = Some 5
   \<and> median_spread (grid_thresholds (make_grid (latest_metrics (map assign_tenor [day_row 400])))) = Some 5
   \<and> cell_colour (classify (make_grid (latest_metrics (map assign_tenor [day_row 400]))) ! 1) = Some green"
proof -
  let ?G = "make_grid (latest_metrics (map assign_tenor [day_row 400]))"
  let ?c = "classify ?G ! 1"
  let ?th = "grid_thresholds ?G"
  have G: "map depth ?G = [None, Some 40, None, None, None]"
          "map cell_spread ?G = [None, Some 5, None, None, None]"
    by (simp_all add: day_row_def grid_eval)
  have "length (map depth ?G) = 5" unfolding G by simp
  then have len: "length (classify ?G) = 5"
    by (simp add: classify_def Let_def)
  have r: "render [day_row 400] = (map assign_tenor [day_row 400], Some (classify ?G, ?th))"
    by (rule render_nonempty) simp
  have "1 < length (classify ?G)" unfolding len by simp
  then have mem: "?c \<in> set (classify ?G)" by (rule nth_mem)
  have nonneg: "\<forall>r \<in> set [day_row 400]. \<forall>s. spread r = Some s \<longrightarrow> 0 \<le> s"
    by (simp add: day_row_def mk_row_def)
  have d: "depth ?c = Some 40"
    using nth_map [of 1 "classify ?G" depth] len G(1) by simp
  have sp: "cell_spread ?c = Some 5"
    using nth_map [of 1 "classify ?G" cell_spread] len G(2) by simp
  have th: "p25 ?th = Some 40" "p75 ?th = Some 40" "median_spread ?th = Some 5"
    unfolding grid_thresholds_def G by (simp_all add: quantile_def median_def Let_def)
  from colour_priority [OF r mem nonneg] d sp th r show ?thesis by simp
qed

section \<open>Properties of the depth score\<close>

subsection \<open>Windows and columns\<close>

lemma window_eq: "i < length xs \<Longrightarrow> window w xs i = map (nth xs) [Suc i - w..<Suc i]"
  by (auto simp: window_def simp del: upt_Suc intro!: nth_equalityI)

lemma length_diff [simp]: "length (diff xs) = length xs"
  by (cases xs) simp_all

lemma diff_nth:
  "i < length xs \<Longrightarrow> diff xs ! i = (if i = 0 then None else Some (xs ! i - xs ! (i - 1)))"
  by (cases xs; cases i) simp_all

lemma length_rolling [simp]:
  "length (rolling_sum w mp xs) = length xs" "length (rolling_mean w mp xs) = length xs"
  by (simp_all add: rolling_sum_def rolling_mean_def)

lemma rolling_sum_nth:
  "i < length xs \<Longrightarrow>
   rolling_sum w mp xs ! i
     = (if mp \<le> length (present (window w xs i)) then Some (sum_list (present (window w xs i))) else None)"
  by (simp add: rolling_sum_def Let_def)

lemma rolling_mean_nth:
  "i < length xs \<Longrightarrow>
   rolling_mean w mp xs ! i
     = (if mp \<le> length (present (window w xs i))
        then Some (sum_list (present (window w xs i)) / of_nat (length (present (window w xs i))))
        else None)"
  by (simp add: rolling_mean_def Let_def)

text \<open>A window of a column without NaN.\<close>

lemma present_window_Some:
  "i < length xs \<Longrightarrow> present (window w (map (\<lambda>t. Some (f t)) xs) i) = map f (window w xs i)"
  by (simp add: window_eq present_map comp_def del: upt_Suc)

lemma length_window: "i < length xs \<Longrightarrow> length (window w xs i) = min (Suc i) w"
  by (simp add: window_eq del: upt_Suc)

text \<open>A window of a column whose first entry alone is NaN.\<close>

lemma filter_pos_upt: "filter (\<lambda>j. j \<noteq> 0) [a..<b] = [max a 1..<b]"
proof (induction b)
  case 0
  then show ?case by simp
next
  case (Suc b)
  then show ?case by (cases "a \<le> b") (auto simp: max_def)
qed

lemma present_window_diff:
  assumes "i < length col" and "\<And>j. j < length col \<Longrightarrow> col ! j = (if j = 0 then None else Some (v j))"
  shows "present (window w col i) = map v [max (Suc i - w) 1..<Suc i]"
proof -
  have "present (window w col i) = map (\<lambda>j. the (col ! j)) (filter (\<lambda>j. col ! j \<noteq> None) [Suc i - w..<Suc i])"
    using assms(1) by (simp add: window_eq present_map del: upt_Suc)
  also have "filter (\<lambda>j. col ! j \<noteq> None) [Suc i - w..<Suc i] = filter (\<lambda>j. j \<noteq> 0) [Suc i - w..<Suc i]"
    using assms by (intro filter_cong) (auto simp del: upt_Suc split: if_splits)
  also have "\<dots> = [max (Suc i - w) 1..<Suc i]" by (rule filter_pos_upt)
  also have "map (\<lambda>j. the (col ! j)) [max (Suc i - w) 1..<Suc i] = map v [max (Suc i - w) 1..<Suc i]"
    using assms by (intro map_cong) (auto simp del: upt_Suc)
  finally show ?thesis .
qed

lemma time_col_nth:
  "j < length s \<Longrightarrow>
   time_since_last_col s ! j
     = (if j = 0 then None
        else Some ((of_int (t_trade_ts (s ! j)) - of_int (t_trade_ts (s ! (j - 1)))) / 60))"
  by (simp add: time_since_last_col_def diff_nth)

lemma spread_col_nth:
  "j < length s \<Longrightarrow>
   spread_bps_col s ! j
     = (if j = 0 then None else Some (\<bar>t_price (s ! j) - t_price (s ! (j - 1))\<bar> * 10000))"
  by (simp add: spread_bps_col_def diff_nth)

lemma length_cols [simp]:
  "length (time_since_last_col s) = length s" "length (spread_bps_col s) = length s"
  "length (raw_depth_col s) = length s" "length (vwap_col s) = length s"
  "length (volume_15min_col s) = length s"
  by (simp_all add: time_since_last_col_def spread_bps_col_def raw_depth_col_def vwap_col_def
      volume_15min_col_def Let_def)

text \<open>The three rolling columns of line 40 to 42 at one position.\<close>

lemma rolling_volume_nth:
  "i < length s \<Longrightarrow>
   rolling_sum 10 mp (map (\<lambda>t. Some (t_qty_cr t)) s) ! i
     = (if mp \<le> min (Suc i) 10 then Some (sum_list (map t_qty_cr (window 10 s i))) else None)"
  by (simp add: rolling_sum_nth present_window_Some length_window)

lemma present_time_window:
  "i < length s \<Longrightarrow>
   present (window 10 (time_since_last_col s) i)
     = map (\<lambda>j. (of_int (t_trade_ts (s ! j)) - of_int (t_trade_ts (s ! (j - 1)))) / 60)
         [max (Suc i - 10) 1..<Suc i]"
  by (rule present_window_diff) (simp_all add: time_col_nth)

lemma present_spread_window:
  "i < length s \<Longrightarrow>
   present (window 10 (spread_bps_col s) i)
     = map (\<lambda>j. \<bar>t_price (s ! j) - t_price (s ! (j - 1))\<bar> * 10000) [max (Suc i - 10) 1..<Suc i]"
  by (rule present_window_diff) (simp_all add: spread_col_nth)

lemma rolling_time_nonneg:
  assumes "i < length s" and "sorted (map t_trade_ts s)"
    and "rolling_mean 10 5 (time_since_last_col s) ! i = Some x"
  shows "0 \<le> x"
proof -
  let ?obs = "present (window 10 (time_since_last_col s) i)"
  have "0 \<le> y" if "y \<in> set ?obs" for y
  proof -
    from that have "y \<in> (\<lambda>j. (of_int (t_trade_ts (s ! j)) - of_int (t_trade_ts (s ! (j - 1)))) / 60)
                      ` set [max (Suc i - 10) 1..<Suc i]"
      unfolding present_time_window [OF assms(1)] set_map .
    then obtain j where jm: "j \<in> set [max (Suc i - 10) 1..<Suc i]"
      and y: "y = (of_int (t_trade_ts (s ! j)) - of_int (t_trade_ts (s ! (j - 1)))) / 60"
      by (rule imageE)
    from jm have j: "0 < j" "j \<le> i" by (auto simp del: upt_Suc)
    from j assms(1) have "t_trade_ts (s ! (j - 1)) \<le> t_trade_ts (s ! j)"
      using sorted_nth_mono [OF assms(2), of "j - 1" j] by simp
    then show ?thesis unfolding y by simp
  qed
  then have "0 \<le> sum_list ?obs" by (rule sum_list_nonneg)
  with assms(1,3) show ?thesis
    by (auto simp: rolling_mean_nth split: if_splits)
qed

lemma rolling_spread_nonneg:
  assumes "i < length s" and "rolling_mean 10 5 (spread_bps_col s) ! i = Some x"
  shows "0 \<le> x"
proof -
  let ?obs = "present (window 10 (spread_bps_col s) i)"
  have "0 \<le> y" if "y \<in> set ?obs" for y
  proof -
    from that have "y \<in> (\<lambda>j. \<bar>t_price (s ! j) - t_price (s ! (j - 1))\<bar> * 10000)
                      ` set [max (Suc i - 10) 1..<Suc i]"
      unfolding present_spread_window [OF assms(1)] set_map .
    then obtain j where "y = \<bar>t_price (s ! j) - t_price (s ! (j - 1))\<bar> * 10000"
      by (rule imageE)
    then show ?thesis by simp
  qed
  then have "0 \<le> sum_list ?obs" by (rule sum_list_nonneg)
  with assms show ?thesis
    by (auto simp: rolling_mean_nth split: if_splits)
qed

lemma rolling_mean_defined:
  assumes "i < length s"
  shows "(rolling_mean 10 5 (time_since_last_col s) ! i \<noteq> None) = (5 \<le> i)"
    and "(rolling_mean 10 5 (spread_bps_col s) ! i \<noteq> None) = (5 \<le> i)"
  using assms
  by (auto simp: rolling_mean_nth present_time_window present_spread_window)

text \<open>The raw depth at one position.\<close>

lemma raw_depth_nth:
  assumes "i < length s"
  shows "raw_depth_col s ! i
     = lift2 (\<lambda>a b. a / (b + min_spread))
         (lift2 (\<lambda>a b. a / (b + min_time))
            (rolling_sum 10 5 (map (\<lambda>t. Some (t_qty_cr t)) s) ! i)
            (rolling_mean 10 5 (time_since_last_col s) ! i))
         (rolling_mean 10 5 (spread_bps_col s) ! i)"
  using assms by (simp add: raw_depth_col_def Let_def)

lemma raw_depth_defined:
  assumes "i < length s"
  shows "(raw_depth_col s ! i \<noteq> None) = (5 \<le> i)"
proof -
  from rolling_mean_defined [OF assms] rolling_volume_nth [OF assms, of 5]
  show ?thesis
    unfolding raw_depth_nth [OF assms] lift2_def
    by (auto split: option.splits)
qed

lemma raw_depth_value:
  assumes "i < length s" and "sorted (map t_trade_ts s)" and "raw_depth_col s ! i = Some d"
  shows "\<exists>rt rs. 0 \<le> rt \<and> 0 \<le> rs
            \<and> d = sum_list (map t_qty_cr (window 10 s i)) / (rt + 1 / 2) / (rs + 1 / 2)"
proof -
  from assms(3) obtain rv rt rs where
    rv: "rolling_sum 10 5 (map (\<lambda>t. Some (t_qty_cr t)) s) ! i = Some rv"
    and rt: "rolling_mean 10 5 (time_since_last_col s) ! i = Some rt"
    and rs: "rolling_mean 10 5 (spread_bps_col s) ! i = Some rs"
    and d: "d = rv / (rt + min_time) / (rs + min_spread)"
    unfolding raw_depth_nth [OF assms(1)] lift2_def by (auto split: option.splits)
  from rv have "rv = sum_list (map t_qty_cr (window 10 s i))"
    by (auto simp: rolling_volume_nth [OF assms(1)] split: if_splits)
  moreover from rt have "0 \<le> rt" by (rule rolling_time_nonneg [OF assms(1,2)])
  moreover from rs have "0 \<le> rs" by (rule rolling_spread_nonneg [OF assms(1)])
  ultimately show ?thesis
    using d by (auto simp: min_time_def min_spread_def)
qed

subsection \<open>Maximum, normalisation and the rows that survive\<close>

lemma present_nth: "x \<in> set (present xs) \<longleftrightarrow> (\<exists>i < length xs. xs ! i = Some x)"
  by (auto simp: set_present in_set_conv_nth)

lemma col_max_Some:
  assumes "col_max xs = Some mx"
  shows "mx \<in> set (present xs)" and "\<And>x. x \<in> set (present xs) \<Longrightarrow> x \<le> mx"
proof -
  from assms obtain y ys where p: "present xs = y # ys" and mx: "mx = fold max ys y"
    by (auto simp: col_max_def split: list.splits)
  have M: "mx = Max (set (y # ys))" unfolding mx by (rule Max.set_eq_fold [symmetric])
  show "mx \<in> set (present xs)" unfolding p M by (rule Max_in) simp_all
  show "x \<le> mx" if "x \<in> set (present xs)" for x
    using that unfolding p M by (intro Max_ge) simp_all
qed

lemma col_max_exists: "present xs \<noteq> [] \<Longrightarrow> \<exists>mx. col_max xs = Some mx"
  by (auto simp: col_max_def split: list.splits)

lemma length_normalize [simp]: "length (normalize_depth ds) = length ds"
  by (simp add: normalize_depth_def split: option.splits)

lemma normalize_nth:
  "i < length ds \<Longrightarrow>
   normalize_depth ds ! i
     = (case col_max ds of
          Some mx \<Rightarrow> if 0 < mx then map_option (\<lambda>d. d / mx * 100) (ds ! i) else ds ! i
        | None \<Rightarrow> ds ! i)"
  by (simp add: normalize_depth_def split: option.splits)

lemma vwap_nth:
  "i < length s \<Longrightarrow>
   vwap_col s ! i
     = fdiv (Some (sum_list (map (\<lambda>t. t_price t * t_qty_cr t) (window 10 s i))))
            (Some (sum_list (map t_qty_cr (window 10 s i))))"
  by (simp add: vwap_col_def rolling_sum_nth present_window_Some length_window)

lemma volume_15min_nth:
  "i < length s \<Longrightarrow> volume_15min_col s ! i = Some (sum_list (map t_qty_cr (window 15 s i)))"
  by (simp add: volume_15min_col_def rolling_sum_nth present_window_Some length_window)

lemma window_subset: "i < length xs \<Longrightarrow> set (window w xs i) \<subseteq> set xs"
  by (auto simp: window_def dest: in_set_dropD in_set_takeD)

text \<open>The rows that survive \<^verbatim>\<open>dropna\<close>, by their position in the sorted group.\<close>

lemma dropna_compute_mem:
  "r \<in> set (dropna (compute_depth_score g)) \<longleftrightarrow>
   (\<exists>i < length g.
      r = \<lparr> isin = t_isin (hd (sort_values g)),
            trade_ts = t_trade_ts (sort_values g ! i),
            depth_score = normalize_depth (raw_depth_col (sort_values g)) ! i,
            spread = spread_bps_col (sort_values g) ! i,
            time_since_last = time_since_last_col (sort_values g) ! i,
            vwap = vwap_col (sort_values g) ! i,
            volume_15min = volume_15min_col (sort_values g) ! i,
            price = t_price (sort_values g ! i),
            qty_cr = t_qty_cr (sort_values g ! i) \<rparr>
      \<and> normalize_depth (raw_depth_col (sort_values g)) ! i \<noteq> None
      \<and> spread_bps_col (sort_values g) ! i \<noteq> None
      \<and> time_since_last_col (sort_values g) ! i \<noteq> None
      \<and> vwap_col (sort_values g) ! i \<noteq> None
      \<and> volume_15min_col (sort_values g) ! i \<noteq> None)"
  by (auto simp: dropna_def compute_depth_score_def Let_def sort_values_def image_iff)

lemma sort_values_facts [simp]:
  "length (sort_values g) = length g" "set (sort_values g) = set g"
  "sorted (map t_trade_ts (sort_values g))"
  by (simp_all add: sort_values_def)

lemma window_volume_nonneg:
  assumes "i < length s" and "\<forall>t \<in> set s. 0 \<le> t_qty_cr t"
  shows "0 \<le> sum_list (map t_qty_cr (window 10 s i))"
proof (rule sum_list_nonneg)
  fix x assume "x \<in> set (map t_qty_cr (window 10 s i))"
  then obtain t where "t \<in> set (window 10 s i)" "x = t_qty_cr t" by auto
  with window_subset [OF assms(1), of 10] assms(2) show "0 \<le> x" by auto
qed

lemma raw_depth_sign:
  assumes "i < length s" and "sorted (map t_trade_ts s)" and "\<forall>t \<in> set s. 0 \<le> t_qty_cr t"
    and "raw_depth_col s ! i = Some d"
  shows "0 \<le> d" and "(0 < d) = (0 < sum_list (map t_qty_cr (window 10 s i)))"
proof -
  from raw_depth_value [OF assms(1,2,4)] obtain rt rs where
    pos: "0 \<le> rt" "0 \<le> rs"
    and d: "d = sum_list (map t_qty_cr (window 10 s i)) / (rt + 1 / 2) / (rs + 1 / 2)"
    by blast
  from pos have den: "0 < rt + 1 / 2" "0 < rs + 1 / 2" by simp_all
  from window_volume_nonneg [OF assms(1,3)] den show "0 \<le> d"
    unfolding d by simp
  show "(0 < d) = (0 < sum_list (map t_qty_cr (window 10 s i)))"
  proof
    assume "0 < d"
    show "0 < sum_list (map t_qty_cr (window 10 s i))"
    proof (rule ccontr)
      assume "\<not> 0 < sum_list (map t_qty_cr (window 10 s i))"
      then have "sum_list (map t_qty_cr (window 10 s i)) \<le> 0" by simp
      then have "sum_list (map t_qty_cr (window 10 s i)) / (rt + 1 / 2) \<le> 0"
        using den(1) by (rule divide_nonpos_pos)
      then have "d \<le> 0" unfolding d using den(2) by (rule divide_nonpos_pos)
      with \<open>0 < d\<close> show False by simp
    qed
  next
    assume "0 < sum_list (map t_qty_cr (window 10 s i))"
    then have "0 < sum_list (map t_qty_cr (window 10 s i)) / (rt + 1 / 2)"
      using den(1) by (rule divide_pos_pos)
    then show "0 < d" unfolding d using den(2) by (rule divide_pos_pos)
  qed
qed

lemma emitted_depth_bounds:
  assumes qty: "\<forall>t \<in> set g. 0 \<le> t_qty_cr t"
    and r: "r \<in> set (dropna (compute_depth_score g))"
  shows "\<exists>d. depth_score r = Some d \<and> 0 \<le> d \<and> d \<le> 100"
proof -
  let ?s = "sort_values g"
  let ?raw = "raw_depth_col ?s"
  from r obtain i where i: "i < length g"
    and dr: "depth_score r = normalize_depth ?raw ! i"
    and ne: "normalize_depth ?raw ! i \<noteq> None"
    unfolding dropna_compute_mem by auto
  from i have il: "i < length ?raw" "i < length ?s" by simp_all
  from ne obtain d where d: "?raw ! i = Some d"
    unfolding normalize_nth [OF il(1)] by (cases "?raw ! i") (auto split: option.splits if_splits)
  have d0: "0 \<le> d"
    by (rule raw_depth_sign(1) [OF il(2) _ _ d]) (simp_all add: qty)
  from d il(1) have "d \<in> set (present ?raw)" unfolding present_nth by blast
  then have "present ?raw \<noteq> []" by auto
  then obtain mx where mx: "col_max ?raw = Some mx" using col_max_exists by blast
  from col_max_Some(2) [OF mx \<open>d \<in> set (present ?raw)\<close>] have dmx: "d \<le> mx" .
  show ?thesis
  proof (cases "0 < mx")
    case True
    then have "depth_score r = Some (d / mx * 100)"
      unfolding dr normalize_nth [OF il(1)] mx d by simp
    moreover from True d0 have "0 \<le> d / mx * 100" by simp
    moreover from True dmx have "d / mx * 100 \<le> 100" by (simp add: divide_le_eq)
    ultimately show ?thesis by blast
  next
    case False
    then have "depth_score r = Some d"
      unfolding dr normalize_nth [OF il(1)] mx d by simp
    moreover from False dmx have "d \<le> 100" by simp
    ultimately show ?thesis using d0 by blast
  qed
qed

lemma all_zero_volume_empty:
  assumes "\<forall>t \<in> set g. t_qty_cr t = 0"
  shows "dropna (compute_depth_score g) = []"
proof -
  let ?s = "sort_values g"
  have "vwap_col ?s ! i = None" if "i < length g" for i
  proof -
    from that have il: "i < length ?s" by simp
    have zero: "t_qty_cr t = 0" if "t \<in> set (window 10 ?s i)" for t
      using that window_subset [OF il, of 10] assms by auto
    have eq1: "map t_qty_cr (window 10 ?s i) = map (\<lambda>t. 0) (window 10 ?s i)"
      by (rule map_cong) (simp_all add: zero)
    have q0: "sum_list (map t_qty_cr (window 10 ?s i)) = 0"
      unfolding eq1 by simp
    have eq2: "map (\<lambda>t. t_price t * t_qty_cr t) (window 10 ?s i) = map (\<lambda>t. 0) (window 10 ?s i)"
      by (rule map_cong) (simp_all add: zero)
    have pq0: "sum_list (map (\<lambda>t. t_price t * t_qty_cr t) (window 10 ?s i)) = 0"
      unfolding eq2 by simp
    show ?thesis
      unfolding vwap_nth [OF il] q0 pq0 by (simp add: fdiv_def)
  qed
  then have "r \<notin> set (dropna (compute_depth_score g))" for r
    unfolding dropna_compute_mem by auto
  then show ?thesis by (cases "dropna (compute_depth_score g)") auto
qed

lemma emitted_depth_max:
  assumes len: "5 < length g" and qty: "\<forall>t \<in> set g. 0 \<le> t_qty_cr t"
    and pos: "\<exists>t \<in> set g. 0 < t_qty_cr t"
  shows "\<exists>r \<in> set (dropna (compute_depth_score g)). depth_score r = Some 100"
proof -
  let ?s = "sort_values g"
  let ?raw = "raw_depth_col ?s"
  have srt: "sorted (map t_trade_ts ?s)" and qs: "\<forall>t \<in> set ?s. 0 \<le> t_qty_cr t"
    using qty by simp_all
  from pos obtain j where j: "j < length ?s" and qj: "0 < t_qty_cr (?s ! j)"
    by (metis in_set_conv_nth sort_values_facts(2))
  define i where "i = max j 5"
  from j len have i: "i < length ?s" "5 \<le> i" by (simp_all add: i_def)
  have "j \<in> set [Suc i - 10..<Suc i]" by (auto simp: i_def simp del: upt_Suc)
  then have "?s ! j \<in> set (window 10 ?s i)"
    unfolding window_eq [OF i(1)] set_map by (rule imageI)
  then have mem: "t_qty_cr (?s ! j) \<in> set (map t_qty_cr (window 10 ?s i))" by simp
  have nn: "\<forall>x \<in> set (map t_qty_cr (window 10 ?s i)). 0 \<le> x"
    using window_subset [OF i(1), of 10] qs by auto
  have "sum_list (map t_qty_cr (window 10 ?s i)) \<noteq> 0"
  proof
    assume "sum_list (map t_qty_cr (window 10 ?s i)) = 0"
    with nn have "\<forall>x \<in> set (map t_qty_cr (window 10 ?s i)). x = 0"
      using sum_list_nonneg_eq_0_iff [of "map t_qty_cr (window 10 ?s i)"] by blast
    with mem qj show False by auto
  qed
  with window_volume_nonneg [OF i(1) qs] have vol: "0 < sum_list (map t_qty_cr (window 10 ?s i))"
    by simp
  from raw_depth_defined [OF i(1)] i(2) obtain d where d: "?raw ! i = Some d" by auto
  from raw_depth_sign(2) [OF i(1) srt qs d] vol have dpos: "0 < d" by simp
  from d i(1) have din: "d \<in> set (present ?raw)" unfolding present_nth by auto
  then have "present ?raw \<noteq> []" by auto
  then obtain mx where mx: "col_max ?raw = Some mx" using col_max_exists by blast
  from col_max_Some(2) [OF mx din] dpos have mxpos: "0 < mx" by simp
  from col_max_Some(1) [OF mx] obtain k where k: "k < length ?s" and rk: "?raw ! k = Some mx"
    unfolding present_nth by auto
  from raw_depth_defined [OF k] rk have k5: "5 \<le> k" by simp
  from raw_depth_sign(2) [OF k srt qs rk] mxpos
  have volk: "0 < sum_list (map t_qty_cr (window 10 ?s k))" by simp
  have lr: "k < length ?raw" using k by simp
  have depth: "normalize_depth ?raw ! k = Some 100"
    unfolding normalize_nth [OF lr] mx rk using mxpos by simp
  have sp: "spread_bps_col ?s ! k \<noteq> None" and tm: "time_since_last_col ?s ! k \<noteq> None"
    using k5 by (simp_all add: spread_col_nth [OF k] time_col_nth [OF k])
  have vw: "vwap_col ?s ! k \<noteq> None"
    unfolding vwap_nth [OF k] using volk by (simp add: fdiv_def)
  have v15: "volume_15min_col ?s ! k \<noteq> None"
    by (simp add: volume_15min_nth [OF k])
  let ?r = "\<lparr> isin = t_isin (hd ?s), trade_ts = t_trade_ts (?s ! k),
              depth_score = normalize_depth ?raw ! k, spread = spread_bps_col ?s ! k,
              time_since_last = time_since_last_col ?s ! k, vwap = vwap_col ?s ! k,
              volume_15min = volume_15min_col ?s ! k, price = t_price (?s ! k),
              qty_cr = t_qty_cr (?s ! k) \<rparr>"
  from k have kg: "k < length g" by simp
  have "?r \<in> set (dropna (compute_depth_score g))"
    unfolding dropna_compute_mem using kg depth sp tm vw v15 by blast
  moreover have "depth_score ?r = Some 100" using depth by simp
  ultimately show ?thesis by blast
qed

subsection \<open>The rows of one ISIN in the table\<close>

lemma set_dropna: "set (dropna rows) = {r \<in> set rows. depth_score r \<noteq> None \<and> spread r \<noteq> None
    \<and> time_since_last r \<noteq> None \<and> vwap r \<noteq> None \<and> volume_15min r \<noteq> None}"
  by (auto simp: dropna_def)

lemma dropna_concat: "set (dropna (concat fs)) = (\<Union>m \<in> set fs. set (dropna m))"
  by (auto simp: set_dropna)

lemma engine_rows_of_isin:
  assumes "5 < length (filter (\<lambda>t. t_isin t = i) trades)"
  shows "\<exists>rows. metrics_engine trades = Some rows
           \<and> {r \<in> set rows. isin r = i}
               = set (dropna (compute_depth_score (filter (\<lambda>t. t_isin t = i) trades)))"
proof -
  let ?c = "\<lambda>g. Inr (compute_depth_score g) :: exn + metric list"
  let ?g = "\<lambda>j. filter (\<lambda>t. t_isin t = j) trades"
  let ?F = "all_metrics (isin_loop ?c trades)"
  have F: "m \<in> set ?F \<longleftrightarrow> (\<exists>j \<in> set (map t_isin trades). 5 < length (?g j) \<and> m = compute_depth_score (?g j))" for m
    by (auto simp: all_metrics_isin_loop map_filter_mem processed_def Let_def split: if_splits)
  from assms have "?g i \<noteq> []" by auto
  then have ikey: "i \<in> set (map t_isin trades)" by (auto simp: filter_empty_conv)
  with assms have mem: "compute_depth_score (?g i) \<in> set ?F" unfolding F by blast
  then have "?F \<noteq> []" by auto
  then have rows: "metrics_engine trades = Some (dropna (concat ?F))"
    by (simp add: metrics_engine_def metrics_table_def Let_def)
  have "{r \<in> set (dropna (concat ?F)). isin r = i} = set (dropna (compute_depth_score (?g i)))"
  proof (intro equalityI subsetI)
    fix r assume "r \<in> {r \<in> set (dropna (concat ?F)). isin r = i}"
    then obtain m where m: "m \<in> set ?F" "r \<in> set (dropna m)" and ri: "isin r = i"
      unfolding dropna_concat by auto
    from m(1) obtain j where j: "m = compute_depth_score (?g j)" unfolding F by blast
    from m(2) have "r \<in> set m" by (simp add: set_dropna)
    then have "isin r = j" unfolding j by (rule compute_depth_score_isin) simp
    with ri j m(2) show "r \<in> set (dropna (compute_depth_score (?g i)))" by simp
  next
    fix r assume r: "r \<in> set (dropna (compute_depth_score (?g i)))"
    then have "r \<in> set (compute_depth_score (?g i))" by (simp add: set_dropna)
    then have "isin r = i" by (rule compute_depth_score_isin) simp
    moreover from r mem have "r \<in> set (dropna (concat ?F))" unfolding dropna_concat by blast
    ultimately show "r \<in> {r \<in> set (dropna (concat ?F)). isin r = i}" by simp
  qed
  with rows show ?thesis by blast
qed

lemma normalize_formula:
  assumes "col_max (raw_depth_col (sort_values g)) = Some mx" and "0 < mx"
  shows "map depth_score (compute_depth_score g)
           = map (map_option (\<lambda>d. d / mx * 100)) (raw_depth_col (sort_values g))"
proof -
  have "map depth_score (compute_depth_score g)
        = map (\<lambda>k. normalize_depth (raw_depth_col (sort_values g)) ! k) [0..<length (sort_values g)]"
    by (simp add: compute_depth_score_def Let_def comp_def)
  also have "\<dots> = normalize_depth (raw_depth_col (sort_values g))"
    using map_nth [of "normalize_depth (raw_depth_col (sort_values g))"] by simp
  also have "\<dots> = map (map_option (\<lambda>d. d / mx * 100)) (raw_depth_col (sort_values g))"
    using assms by (simp add: normalize_depth_def)
  finally show ?thesis .
qed

text \<open>
  Claim C1, as amended. For an ISIN with more than five trades (so for one with at
  least 15) whose quantities are not negative, the run writes a table in which every
  depth score of the ISIN lies between 0 and 100; if one of its quantities is
  positive, one of its rows has the depth score 100, which is then the maximum. If
  all its quantities are 0, every depth score that \<^verbatim>\<open>compute_depth_score\<close> computes
  is missing or 0, and the table has no row of the ISIN: the vwap of every row is
  \<open>0/0\<close>, and \<^verbatim>\<open>dropna\<close> removes the row. Where the maximum \<open>mx\<close> of the raw
  depth is positive, the depth score is the raw depth divided by \<open>mx\<close> and
  multiplied by 100.
\<close>

theorem depth_score_normalised:
  assumes "5 < length (filter (\<lambda>t. t_isin t = i) trades)"
    and "\<forall>t \<in> set trades. t_isin t = i \<longrightarrow> 0 \<le> t_qty_cr t"
  shows "\<exists>rows. metrics_engine trades = Some rows
      \<and> (\<forall>r \<in> set rows. isin r = i \<longrightarrow> (\<exists>d. depth_score r = Some d \<and> 0 \<le> d \<and> d \<le> 100))
      \<and> ((\<exists>t \<in> set trades. t_isin t = i \<and> 0 < t_qty_cr t)
            \<longrightarrow> (\<exists>r \<in> set rows. isin r = i \<and> depth_score r = Some 100))
      \<and> ((\<forall>t \<in> set trades. t_isin t = i \<longrightarrow> t_qty_cr t = 0)
            \<longrightarrow> (\<forall>r \<in> set rows. isin r \<noteq> i)
                \<and> (\<forall>r \<in> set (compute_depth_score (filter (\<lambda>t. t_isin t = i) trades)).
                      depth_score r = None \<or> depth_score r = Some 0))
      \<and> (\<forall>mx. col_max (raw_depth_col (sort_values (filter (\<lambda>t. t_isin t = i) trades))) = Some mx
                \<and> 0 < mx
            \<longrightarrow> map depth_score (compute_depth_score (filter (\<lambda>t. t_isin t = i) trades))
                = map (map_option (\<lambda>d. d / mx * 100))
                    (raw_depth_col (sort_values (filter (\<lambda>t. t_isin t = i) trades))))"
proof -
  let ?g = "filter (\<lambda>t. t_isin t = i) trades"
  from engine_rows_of_isin [OF assms(1)] obtain rows where
    rows: "metrics_engine trades = Some rows"
    and eq: "{r \<in> set rows. isin r = i} = set (dropna (compute_depth_score ?g))"
    by blast
  have qty: "\<forall>t \<in> set ?g. 0 \<le> t_qty_cr t" using assms(2) by simp
  have b: "\<exists>d. depth_score r = Some d \<and> 0 \<le> d \<and> d \<le> 100" if "r \<in> set rows" "isin r = i" for r
  proof -
    from that eq have "r \<in> set (dropna (compute_depth_score ?g))" by blast
    with qty show ?thesis by (rule emitted_depth_bounds)
  qed
  have c: "\<exists>r \<in> set rows. isin r = i \<and> depth_score r = Some 100"
    if "\<exists>t \<in> set trades. t_isin t = i \<and> 0 < t_qty_cr t"
  proof -
    from that have "\<exists>t \<in> set ?g. 0 < t_qty_cr t" by auto
    from emitted_depth_max [OF assms(1) qty this] obtain r where
      "r \<in> set (dropna (compute_depth_score ?g))" "depth_score r = Some 100" by blast
    with eq show ?thesis by blast
  qed
  have d1: "\<forall>r \<in> set rows. isin r \<noteq> i"
    if "\<forall>t \<in> set trades. t_isin t = i \<longrightarrow> t_qty_cr t = 0"
  proof -
    from that have "\<forall>t \<in> set ?g. t_qty_cr t = 0" by simp
    then have "dropna (compute_depth_score ?g) = []" by (rule all_zero_volume_empty)
    with eq show ?thesis by auto
  qed
  have d2: "depth_score r = None \<or> depth_score r = Some 0"
    if z: "\<forall>t \<in> set trades. t_isin t = i \<longrightarrow> t_qty_cr t = 0"
      and r: "r \<in> set (compute_depth_score ?g)" for r
  proof -
    let ?s = "sort_values ?g"
    let ?raw = "raw_depth_col ?s"
    from r obtain k where k: "k < length ?s" and dr: "depth_score r = normalize_depth ?raw ! k"
      by (auto simp: compute_depth_score_def Let_def)
    have zero: "x = 0" if "x \<in> set (present ?raw)" for x
    proof -
      from that obtain j where j: "j < length ?s" "?raw ! j = Some x"
        unfolding present_nth by auto
      have w0: "sum_list (map t_qty_cr (window 10 ?s j)) = 0"
      proof -
        have "map t_qty_cr (window 10 ?s j) = map (\<lambda>t. 0) (window 10 ?s j)"
          using window_subset [OF j(1), of 10] z by (intro map_cong) auto
        then show ?thesis by (metis sum_list_0)
      qed
      from raw_depth_value [OF j(1) _ j(2)] show ?thesis unfolding w0 by auto
    qed
    show ?thesis
    proof (cases "?raw ! k")
      case None
      then show ?thesis unfolding dr using k by (simp add: normalize_nth split: option.splits)
    next
      case (Some x)
      with k have xin: "x \<in> set (present ?raw)" unfolding present_nth by auto
      then have x0: "x = 0" by (rule zero)
      from xin have "present ?raw \<noteq> []" by auto
      then obtain mx where mx: "col_max ?raw = Some mx" using col_max_exists by blast
      from col_max_Some(1) [OF mx] have "mx = 0" by (rule zero)
      then show ?thesis unfolding dr using k Some x0 mx by (simp add: normalize_nth)
    qed
  qed
  from rows b c d1 d2 normalize_formula show ?thesis by blast
qed

theorem depth_score_normalised_witness:
  "5 < length (filter (\<lambda>t. t_isin t = ''INA'') liquid_trades)
   \<and> 15 \<le> length (filter (\<lambda>t. t_isin t = ''INA'') liquid_trades)
   \<and> (\<exists>rows. metrics_engine liquid_trades = Some rows
         \<and> (\<exists>r \<in> set rows. isin r = ''INA'' \<and> depth_score r = Some 100))"
proof -
  have len: "length (filter (\<lambda>t. t_isin t = ''INA'') liquid_trades) = 15"
    by (simp add: liquid_trades_def minute_trades_def)
  then have h1: "5 < length (filter (\<lambda>t. t_isin t = ''INA'') liquid_trades)" by simp
  have h2: "\<forall>t \<in> set liquid_trades. t_isin t = ''INA'' \<longrightarrow> 0 \<le> t_qty_cr t"
    by (simp add: liquid_trades_def minute_trades_def)
  have h3: "\<exists>t \<in> set liquid_trades. t_isin t = ''INA'' \<and> 0 < t_qty_cr t"
    by (auto simp: liquid_trades_def minute_trades_def intro: exI [of _ 0])
  from depth_score_normalised [OF h1 h2] h3 len show ?thesis by auto
qed

text \<open>
  Claim C1 as stated fails in the degenerate case: for fifteen trades of quantity 0
  the table is empty, so there is no emitted record whose depth score is 0.
\<close>

theorem zero_volume_emits_nothing_counterexample:
  "length (filter (\<lambda>t. t_isin t = ''INA'') zero_volume_trades) = 15
   \<and> metrics_engine zero_volume_trades = Some []"
proof -
  have k: "unique (map t_isin zero_volume_trades) = [''INA'']"
    by (simp add: zero_volume_trades_def minute_trades_def upt_rec)
  have f: "filter (\<lambda>t. t_isin t = ''INA'') zero_volume_trades = zero_volume_trades"
    by (simp add: zero_volume_trades_def minute_trades_def)
  have l: "length zero_volume_trades = 15"
    by (simp add: zero_volume_trades_def minute_trades_def)
  have e: "dropna (compute_depth_score zero_volume_trades) = []"
    by (rule all_zero_volume_empty) (simp add: zero_volume_trades_def minute_trades_def)
  have "metrics_engine zero_volume_trades = Some []"
    by (simp add: metrics_engine_def metrics_table_def isin_loop_def loop_body_def k f l e Let_def)
  with f l show ?thesis by simp
qed

end
